theory Spec2Isabelle
  imports Main "HOL-Library.Word"
begin

section \<open>The archive access engine of fuse-archive (src/main.cc)\<close>

text \<open>
  Conventions of the embedding.
  \<^item> \<open>int64_t\<close>, \<open>ssize_t\<close>, \<open>off_t\<close> and \<open>time_t\<close> values are \<open>int\<close>. Signed
    overflow is undefined in C++, and the quantities the engine computes with (entry
    indices, offsets inside an entry, lengths of at most one side buffer) stay far inside
    the 64-bit range, so no wrap-around is written for them; the one sum that takes an
    arbitrary size from the archive, in \<open>get_block_count\<close>, is reduced to 64 bits.
  \<^item> \<open>uint64_t\<close> and \<open>size_t\<close> values are \<open>nat\<close>; where the source increments or converts
    one, the reduction modulo \<open>2 ^ 64\<close> is written out.
  \<^item> \<open>mode_t\<close> is a 32-bit word.
  \<^item> A C string is the list of its characters before the terminating NUL.
\<close>

unbundle bit_operations_syntax

subsection \<open>Compile-time configuration and exit codes\<close>

type_synonym byte = "8 word"

definition EXIT_CODE_GENERIC_FAILURE :: int where "EXIT_CODE_GENERIC_FAILURE = 1"
definition EXIT_CODE_CANNOT_OPEN_ARCHIVE :: int where "EXIT_CODE_CANNOT_OPEN_ARCHIVE = 11"
definition EXIT_CODE_PASSPHRASE_REQUIRED :: int where "EXIT_CODE_PASSPHRASE_REQUIRED = 20"
definition EXIT_CODE_PASSPHRASE_INCORRECT :: int where "EXIT_CODE_PASSPHRASE_INCORRECT = 21"
definition EXIT_CODE_PASSPHRASE_NOT_SUPPORTED :: int where "EXIT_CODE_PASSPHRASE_NOT_SUPPORTED = 22"
definition EXIT_CODE_INVALID_RAW_ARCHIVE :: int where "EXIT_CODE_INVALID_RAW_ARCHIVE = 30"
definition EXIT_CODE_INVALID_ARCHIVE_HEADER :: int where "EXIT_CODE_INVALID_ARCHIVE_HEADER = 31"
definition EXIT_CODE_INVALID_ARCHIVE_CONTENTS :: int where "EXIT_CODE_INVALID_ARCHIVE_CONTENTS = 32"

definition NUM_SAVED_READERS :: nat where "NUM_SAVED_READERS = 8"
definition NUM_SIDE_BUFFERS :: nat where "NUM_SIDE_BUFFERS = 8"
definition SIDE_BUFFER_SIZE :: int where "SIDE_BUFFER_SIZE = 131072"
definition UINT64_MAX :: nat where "UINT64_MAX = 2 ^ 64 - 1"
definition INT_MAX :: nat where "INT_MAX = 2 ^ 31 - 1"

subsection \<open>Passphrase error classification\<close>

text \<open>\<open>std::string_view::starts_with\<close>: the second argument is the prefix looked for.\<close>

fun starts_with :: "string \<Rightarrow> string \<Rightarrow> bool" where
  "starts_with e [] = True"
| "starts_with [] (p # ps) = False"
| "starts_with (c # cs) (p # ps) = (c = p \<and> starts_with cs ps)"

definition not_supported_prefixes :: "string list" where
  "not_supported_prefixes =
    [''Crypto codec not supported'',
     ''Decryption is unsupported'',
     ''Encrypted file is unsupported'',
     ''Encryption is not supported'',
     ''RAR encryption support unavailable'',
     ''The archive header is encrypted, but currently not supported'',
     ''The file content is encrypted, but currently not supported'',
     ''Unsupported encryption format'']"

text \<open>The range-for loop over \<open>not_supported_prefixes\<close>, returning at the first match.\<close>

fun starts_with_any :: "string \<Rightarrow> string list \<Rightarrow> bool" where
  "starts_with_any e [] = False"
| "starts_with_any e (prefix # rest) = (if starts_with e prefix then True else starts_with_any e rest)"

definition determine_passphrase_exit_code :: "string \<Rightarrow> int" where
  "determine_passphrase_exit_code e =
    (if starts_with e ''Incorrect passphrase'' then EXIT_CODE_PASSPHRASE_INCORRECT
     else if starts_with e ''Passphrase required'' then EXIT_CODE_PASSPHRASE_REQUIRED
     else if starts_with_any e not_supported_prefixes then EXIT_CODE_PASSPHRASE_NOT_SUPPORTED
     else EXIT_CODE_INVALID_ARCHIVE_CONTENTS)"

subsection \<open>The decompression library, as the engine sees it\<close>

text \<open>
  libarchive is outside the repository. A handle is modelled by what its coming calls
  will answer, so that every theorem below holds for every behaviour of the library:
  \<^item> \<open>headers\<close>: the status each coming \<open>archive_read_next_header\<close> returns, with the
    entry pointer it stores through its out-parameter (\<open>None\<close> is the null pointer). When the
    list is used up the archive is at its end: the call returns \<open>ARCHIVE_EOF\<close>.
  \<^item> \<open>reads\<close>: what each coming \<open>archive_read_data\<close> returns, as a function of the
    length that the call asks for: \<open>Data bs\<close> is the return value \<open>length bs\<close> with the bytes
    \<open>bs\<close> written to the caller's buffer, \<open>ReadError\<close> is a negative return value. When the
    list is used up the entry is at its end: every further call returns 0.
  \<^item> \<open>asked\<close>: the lengths that the calls of \<open>archive_read_data\<close> on this handle have asked
    for so far, oldest first.
\<close>

definition ARCHIVE_EOF :: int where "ARCHIVE_EOF = 1"
definition ARCHIVE_OK :: int where "ARCHIVE_OK = 0"
definition ARCHIVE_RETRY :: int where "ARCHIVE_RETRY = - 10"
definition ARCHIVE_WARN :: int where "ARCHIVE_WARN = - 20"
definition ARCHIVE_FAILED :: int where "ARCHIVE_FAILED = - 25"
definition ARCHIVE_FATAL :: int where "ARCHIVE_FATAL = - 30"

definition EIO :: int where "EIO = 5"
definition EINVAL :: int where "EINVAL = 22"

record archive_entry_t =
  entry_pathname_utf8 :: "string option"
  entry_pathname :: "string option"
  entry_mode :: "32 word"
  entry_symlink_utf8 :: "string option"
  entry_symlink :: "string option"
  entry_size :: int
  entry_size_is_set :: bool
  entry_mtime :: int

datatype read_result = Data "byte list" | ReadError

record archive_t =
  headers :: "(int \<times> archive_entry_t option) list"
  reads :: "(nat \<Rightarrow> read_result) list"
  asked :: "nat list"

definition archive_read_next_header :: "archive_t \<Rightarrow> int \<times> archive_entry_t option \<times> archive_t" where
  "archive_read_next_header a =
    (case headers a of
       [] \<Rightarrow> (ARCHIVE_EOF, None, a)
     | (status, e) # hs \<Rightarrow> (status, e, a\<lparr>headers := hs\<rparr>))"

definition archive_read_data :: "archive_t \<Rightarrow> nat \<Rightarrow> read_result \<times> archive_t" where
  "archive_read_data a len =
    (case reads a of
       [] \<Rightarrow> (Data [], a\<lparr>asked := asked a @ [len]\<rparr>)
     | f # fs \<Rightarrow> (f len, a\<lparr>reads := fs, asked := asked a @ [len]\<rparr>))"

text \<open>
  How a call of the engine ends: it returns, the process is terminated (\<open>abort()\<close>, a
  failed \<open>assert\<close>, or a null or dangling pointer handed on), or it never returns.
\<close>

datatype 'a outcome = Returns 'a | Aborts | Hangs

subsection \<open>Global state\<close>

record side_buffer_metadata =
  sbm_index_within_archive :: int
  sbm_offset_within_entry :: int
  sbm_length :: int
  sbm_lru_priority :: nat

record Reader =
  archive :: "archive_t option"
  archive_entry :: "archive_entry_t option"
  index_within_archive :: int
  offset_within_entry :: int

text \<open>
  A \<open>Node*\<close> is represented by the absolute pathname under which \<open>g_nodes_by_name\<close> holds
  the node: every Node that outlives \<open>insert_leaf_node\<close> is entered there under one key at
  the moment it is allocated, and no key is ever removed or bound again. So
  \<open>g_nodes_by_name\<close> is at once the map of the source and the store of the Node objects.
\<close>

record Node =
  rel_name :: string
  symlink :: string
  node_index_within_archive :: int
  node_size :: int
  mtime :: int
  mode :: "32 word"
  parent :: "string option"
  last_child :: "string option"
  first_child :: "string option"
  next_sibling :: "string option"

record globals =
  g_side_buffer_data :: "byte list list"
  g_side_buffer_metadata :: "side_buffer_metadata list"
  next_lru_priority :: nat
  g_saved_readers :: "(Reader option \<times> nat) list"
  release_reader_next_lru_priority :: nat
  g_nodes_by_name :: "string \<rightharpoonup> Node"
  g_nodes_by_index :: "string option list"
  g_root_node :: "string option"
  g_block_count :: int
  g_archive_is_raw :: bool
  g_archive_innername :: "string option"
  g_initialize_archive :: "archive_t option"
  g_initialize_archive_entry :: "archive_entry_t option"
  g_initialize_index_within_archive :: int

subsection \<open>Side buffers\<close>

text \<open>
  \<open>side_buffer_metadata::contains\<close>. The last comparison of the source is between
  \<open>int64_t\<close> and \<open>uint64_t\<close>; it is only evaluated when \<open>this->length >= o\<close>, so the
  left side is not negative and its conversion to \<open>uint64_t\<close> is its value. The
  source's \<open>o\<close> is written \<open>ofs\<close>.
\<close>

definition contains :: "side_buffer_metadata \<Rightarrow> int \<Rightarrow> int \<Rightarrow> nat \<Rightarrow> bool" where
  "contains this idx off len =
    (if sbm_index_within_archive this \<ge> 0 \<and>
        sbm_index_within_archive this = idx \<and>
        sbm_offset_within_entry this \<le> off
     then (let ofs = off - sbm_offset_within_entry this
           in sbm_length this \<ge> ofs \<and> sbm_length this - ofs \<ge> int len)
     else False)"

definition acquire_side_buffer_step ::
    "side_buffer_metadata list \<Rightarrow> nat \<Rightarrow> nat \<times> nat \<Rightarrow> nat \<times> nat" where
  "acquire_side_buffer_step metas i acc =
    (case acc of (oldest_i, oldest_lru_priority) \<Rightarrow>
       if oldest_lru_priority > sbm_lru_priority (metas ! i)
       then (i, sbm_lru_priority (metas ! i))
       else (oldest_i, oldest_lru_priority))"

definition acquire_side_buffer :: "globals \<Rightarrow> int \<times> globals" where
  "acquire_side_buffer st =
    (let metas = g_side_buffer_metadata st;
         oldest_i = fst (fold (acquire_side_buffer_step metas) [1..<NUM_SIDE_BUFFERS]
                           (0, sbm_lru_priority (metas ! 0)))
     in (int oldest_i,
         st\<lparr>g_side_buffer_metadata := metas[oldest_i :=
              \<lparr>sbm_index_within_archive = - 1, sbm_offset_within_entry = - 1,
               sbm_length = - 1, sbm_lru_priority = UINT64_MAX\<rparr>]\<rparr>))"

definition read_from_side_buffer_step ::
    "side_buffer_metadata list \<Rightarrow> int \<Rightarrow> int \<Rightarrow> nat \<Rightarrow> nat \<Rightarrow> int \<times> int \<Rightarrow> int \<times> int" where
  "read_from_side_buffer_step metas idx off len i acc =
    (case acc of (best_i, best_length) \<Rightarrow>
       if sbm_length (metas ! i) > best_length \<and> contains (metas ! i) idx off len
       then (int i, sbm_length (metas ! i))
       else (best_i, best_length))"

text \<open>
  \<open>read_from_side_buffer\<close> returns whether it hit, the bytes it copied to \<open>dst_ptr\<close>
  (\<open>memcpy\<close> of \<open>dst_len\<close> bytes from \<open>g_side_buffer_data[best_i] + o\<close>) and the new state.
\<close>

definition read_from_side_buffer ::
    "int \<Rightarrow> nat \<Rightarrow> int \<Rightarrow> globals \<Rightarrow> bool \<times> byte list \<times> globals" where
  "read_from_side_buffer idx dst_len off st =
    (let metas = g_side_buffer_metadata st;
         best_i = fst (fold (read_from_side_buffer_step metas idx off dst_len)
                         [0..<NUM_SIDE_BUFFERS] (- 1, - 1))
     in if best_i \<ge> 0
        then (let meta = metas ! nat best_i;
                  p = (next_lru_priority st + 1) mod 2 ^ 64;
                  ofs = off - sbm_offset_within_entry meta
              in (True,
                  take dst_len (drop (nat ofs) (g_side_buffer_data st ! nat best_i)),
                  st\<lparr>g_side_buffer_metadata := metas[nat best_i := meta\<lparr>sbm_lru_priority := p\<rparr>],
                     next_lru_priority := p\<rparr>))
        else (False, [], st))"

subsection \<open>Reader\<close>

text \<open>
  \<open>Reader::advance_index\<close>. The loop runs while \<open>index_within_archive < want\<close>; the handle
  was checked before the loop and the loop never clears it, so the \<open>None\<close> case of the loop
  is not reached from \<open>advance_index\<close>.
\<close>

function advance_index_loop :: "int \<Rightarrow> Reader \<Rightarrow> bool \<times> Reader" where
  "advance_index_loop want this =
    (if index_within_archive this < want
     then (case archive this of
             None \<Rightarrow> (False, this)
           | Some a \<Rightarrow>
               (case archive_read_next_header a of (status, e, a') \<Rightarrow>
                  if status = ARCHIVE_EOF
                  then (False, this\<lparr>archive := Some a', archive_entry := e\<rparr>)
                  else if status \<noteq> ARCHIVE_OK \<and> status \<noteq> ARCHIVE_WARN
                  then (False, this\<lparr>archive := Some a', archive_entry := e\<rparr>)
                  else advance_index_loop want
                         (this\<lparr>archive := Some a', archive_entry := e,
                               index_within_archive := index_within_archive this + 1,
                               offset_within_entry := 0\<rparr>)))
     else (True, this))"
  by pat_completeness auto
termination
  by (relation "measure (\<lambda>(want, this). nat (want - index_within_archive this))") auto

declare advance_index_loop.simps [simp del]

definition advance_index :: "int \<Rightarrow> Reader \<Rightarrow> bool \<times> Reader" where
  "advance_index want this =
    (if archive this = None then (False, this) else advance_index_loop want this)"

text \<open>
  \<open>Reader::read\<close> returns the \<open>ssize_t\<close> result, the bytes written to \<open>dst_ptr\<close> and the
  Reader. The source hands \<open>this->archive\<close> to the library unchecked; both callers check it
  first, and a null handle is modelled as the end of the process. The pathname is used for
  log messages only.
\<close>

definition reader_read :: "Reader \<Rightarrow> nat \<Rightarrow> string \<Rightarrow> (int \<times> byte list \<times> Reader) outcome" where
  "reader_read this dst_len pathname =
    (case archive this of
       None \<Rightarrow> Aborts
     | Some a \<Rightarrow>
         (case archive_read_data a dst_len of
            (ReadError, a') \<Rightarrow> Returns (- EIO, [], this\<lparr>archive := Some a'\<rparr>)
          | (Data bs, a') \<Rightarrow>
              if length bs > dst_len then Aborts
              else Returns (int (length bs), bs,
                            this\<lparr>archive := Some a',
                                 offset_within_entry := offset_within_entry this + int (length bs)\<rparr>)))"

text \<open>The length of the next chunk that \<open>advance_offset\<close> asks for, from the distance left.\<close>

definition advance_offset_dst_len :: "int \<Rightarrow> int" where
  "advance_offset_dst_len distance =
    (if distance > SIDE_BUFFER_SIZE
     then (let m = distance mod SIDE_BUFFER_SIZE in if m = 0 then SIDE_BUFFER_SIZE else m)
     else distance)"

text \<open>
  The loop of \<open>advance_offset\<close> over the acquired side buffer \<open>sb\<close>. A read of \<open>n\<close> bytes
  overwrites the first \<open>n\<close> bytes of the buffer. When the library is at the end of the entry
  (its \<open>reads\<close> are used up, so this and every further read returns 0) while the offset is
  still short of \<open>want\<close>, the loop of the source never ends: \<open>Hangs\<close>.
\<close>

function advance_offset_loop ::
    "int \<Rightarrow> string \<Rightarrow> nat \<Rightarrow> Reader \<Rightarrow> globals \<Rightarrow> (bool \<times> Reader \<times> globals) outcome" where
  "advance_offset_loop want pathname sb this st =
    (if want > offset_within_entry this
     then (let original_owe = offset_within_entry this;
               dst_len = advance_offset_dst_len (want - original_owe)
           in case reader_read this (nat dst_len) pathname of
                Aborts \<Rightarrow> Aborts
              | Hangs \<Rightarrow> Hangs
              | Returns (n, bs, this') \<Rightarrow>
                  if n < 0
                  then Returns (False, this',
                         st\<lparr>g_side_buffer_metadata := (g_side_buffer_metadata st)[sb :=
                              \<lparr>sbm_index_within_archive = - 1, sbm_offset_within_entry = - 1,
                               sbm_length = - 1, sbm_lru_priority = 0\<rparr>]\<rparr>)
                  else (let p = (next_lru_priority st + 1) mod 2 ^ 64;
                            st' = st\<lparr>g_side_buffer_data := (g_side_buffer_data st)[sb :=
                                       bs @ drop (length bs) (g_side_buffer_data st ! sb)],
                                     g_side_buffer_metadata := (g_side_buffer_metadata st)[sb :=
                                       \<lparr>sbm_index_within_archive = index_within_archive this',
                                        sbm_offset_within_entry = original_owe,
                                        sbm_length = n, sbm_lru_priority = p\<rparr>],
                                     next_lru_priority := p\<rparr>
                        in if n = 0 \<and> (case archive this of None \<Rightarrow> True | Some a \<Rightarrow> reads a = [])
                           then Hangs
                           else advance_offset_loop want pathname sb this' st'))
     else Returns (True, this, st))"
  by pat_completeness auto
termination
proof (relation "measures [\<lambda>(want, pathname, sb, this, st). nat (want - offset_within_entry this),
                            \<lambda>(want, pathname, sb, this, st).
                               (case archive this of None \<Rightarrow> 0 | Some a \<Rightarrow> length (reads a))]",
       goal_cases)
  case 1
  show ?case by simp
next
  case (2 want pathname sb this st original_owe dst_len x2 n y bs this' p st')
  then show ?case
    by (auto simp: reader_read_def archive_read_data_def
             split: option.splits list.splits read_result.splits if_splits)
qed

declare advance_offset_loop.simps [simp del]

definition advance_offset ::
    "int \<Rightarrow> string \<Rightarrow> Reader \<Rightarrow> globals \<Rightarrow> (bool \<times> Reader \<times> globals) outcome" where
  "advance_offset want pathname this st =
    (if archive this = None \<or> archive_entry this = None then Returns (False, this, st)
     else if want < offset_within_entry this then Returns (False, this, st)
     else if want = offset_within_entry this then Returns (True, this, st)
     else (case acquire_side_buffer st of (sb, st1) \<Rightarrow>
             if sb < 0 \<or> int NUM_SIDE_BUFFERS \<le> sb then Returns (False, this, st1)
             else advance_offset_loop want pathname (nat sb) this st1))"






text \<open>\<open>swap\<close> exchanges the four fields of two Readers.\<close>

definition swap :: "Reader \<Rightarrow> Reader \<Rightarrow> Reader \<times> Reader" where
  "swap a b =
    (a\<lparr>archive := archive b, archive_entry := archive_entry b,
       index_within_archive := index_within_archive b,
       offset_within_entry := offset_within_entry b\<rparr>,
     b\<lparr>archive := archive a, archive_entry := archive_entry a,
       index_within_archive := index_within_archive a,
       offset_within_entry := offset_within_entry a\<rparr>)"

text \<open>
  For stating what a Reader goes through: the three operations of a Reader as a datatype,
  and a sequence of them run on one Reader. A failed operation leaves the Reader as the
  operation left it; the sequence ends where the process ends or hangs.
\<close>

datatype reader_op = Advance_index int | Advance_offset int string | Read nat string

fun apply_op :: "reader_op \<Rightarrow> Reader \<times> globals \<Rightarrow> (Reader \<times> globals) outcome" where
  "apply_op (Advance_index want) (this, st) = Returns (snd (advance_index want this), st)"
| "apply_op (Advance_offset want pathname) (this, st) =
    (case advance_offset want pathname this st of
       Returns (ok, this', st') \<Rightarrow> Returns (this', st')
     | Aborts \<Rightarrow> Aborts
     | Hangs \<Rightarrow> Hangs)"
| "apply_op (Read dst_len pathname) (this, st) =
    (case reader_read this dst_len pathname of
       Returns (n, bs, this') \<Rightarrow> Returns (this', st)
     | Aborts \<Rightarrow> Aborts
     | Hangs \<Rightarrow> Hangs)"

fun run_ops :: "reader_op list \<Rightarrow> Reader \<times> globals \<Rightarrow> (Reader \<times> globals) outcome" where
  "run_ops [] s = Returns s"
| "run_ops (x # xs) s =
    (case apply_op x s of
       Returns s' \<Rightarrow> run_ops xs s'
     | Aborts \<Rightarrow> Aborts
     | Hangs \<Rightarrow> Hangs)"

subsection \<open>Reader cache\<close>

text \<open>\<open>operator<\<close> and \<open>operator<=\<close> of \<open>std::pair\<close>: lexicographic.\<close>

definition pair_lt :: "int \<times> int \<Rightarrow> int \<times> int \<Rightarrow> bool" where
  "pair_lt x y = (fst x < fst y \<or> (fst x = fst y \<and> snd x < snd y))"

definition pair_le :: "int \<times> int \<Rightarrow> int \<times> int \<Rightarrow> bool" where
  "pair_le x y = (\<not> pair_lt y x)"

definition acquire_reader_step ::
    "(Reader option \<times> nat) list \<Rightarrow> int \<Rightarrow> nat \<Rightarrow> int \<times> int \<times> int \<Rightarrow> int \<times> int \<times> int" where
  "acquire_reader_step saved want i acc =
    (case acc of (best_i, best_index_within_archive, best_offset_within_entry) \<Rightarrow>
       (case fst (saved ! i) of
          None \<Rightarrow> acc
        | Some sri \<Rightarrow>
            if pair_lt (best_index_within_archive, best_offset_within_entry)
                 (index_within_archive sri, offset_within_entry sri) \<and>
               pair_le (index_within_archive sri, offset_within_entry sri) (want, 0)
            then (int i, index_within_archive sri, offset_within_entry sri)
            else acc))"

text \<open>The constructor \<open>Reader(_archive)\<close>.\<close>

definition new_Reader :: "archive_t \<Rightarrow> Reader" where
  "new_Reader a =
    \<lparr>archive = Some a, archive_entry = None, index_within_archive = - 1, offset_within_entry = 0\<rparr>"

text \<open>
  \<open>acquire_reader\<close>. The parameter \<open>opened\<close> is what \<open>archive_read_new\<close> followed by
  \<open>archive_read_open_filename\<close> gives if the call gets there: \<open>None\<close> when either fails,
  otherwise the fresh handle. The result \<open>None\<close> is the null \<open>unique_ptr\<close>. \<open>best_i\<close> is only
  ever set to the position of a non-null Reader, so the \<open>None\<close> case after \<open>best_i \<ge> 0\<close> is
  not reached.
\<close>

definition acquire_reader :: "archive_t option \<Rightarrow> int \<Rightarrow> globals \<Rightarrow> Reader option \<times> globals" where
  "acquire_reader opened want_index_within_archive st =
    (if want_index_within_archive < 0 then (None, st)
     else (let saved = g_saved_readers st;
               best_i = fst (fold (acquire_reader_step saved want_index_within_archive)
                               [0..<NUM_SAVED_READERS] (- 1, - 1, - 1))
           in if best_i \<ge> 0
              then (let st' = st\<lparr>g_saved_readers := saved[nat best_i := (None, 0)]\<rparr>
                    in case fst (saved ! nat best_i) of
                         None \<Rightarrow> (None, st')
                       | Some r \<Rightarrow>
                           (case advance_index want_index_within_archive r of
                              (ok, r') \<Rightarrow> (if ok then Some r' else None, st')))
              else (case opened of
                      None \<Rightarrow> (None, st)
                    | Some a \<Rightarrow>
                        (case advance_index want_index_within_archive (new_Reader a) of
                           (ok, r') \<Rightarrow> (if ok then Some r' else None, st)))))"

definition release_reader_step :: "(Reader option \<times> nat) list \<Rightarrow> nat \<Rightarrow> nat \<times> nat \<Rightarrow> nat \<times> nat" where
  "release_reader_step saved i acc =
    (case acc of (oldest_i, oldest_lru_priority) \<Rightarrow>
       if oldest_lru_priority > snd (saved ! i)
       then (i, snd (saved ! i))
       else (oldest_i, oldest_lru_priority))"

definition release_reader :: "Reader option \<Rightarrow> globals \<Rightarrow> globals" where
  "release_reader r st =
    (if NUM_SAVED_READERS \<le> 0 then st
     else (let saved = g_saved_readers st;
               oldest_i = fst (fold (release_reader_step saved) [1..<NUM_SAVED_READERS]
                                 (0, snd (saved ! 0)));
               p = (release_reader_next_lru_priority st + 1) mod 2 ^ 64
           in st\<lparr>g_saved_readers := saved[oldest_i := (r, p)],
                 release_reader_next_lru_priority := p\<rparr>))"

subsection \<open>The read callback\<close>

text \<open>
  \<open>my_read\<close>. \<open>fh\<close> is the Reader that \<open>ffi->fh\<close> points to (\<open>None\<close>: a null pointer); the
  call returns its \<open>int\<close> result, the bytes written to \<open>dst_ptr\<close>, the Reader behind the
  handle and the globals. The conversion of \<open>index_within_archive\<close> to \<open>uint64_t\<close> is
  written out. A pointer of \<open>g_nodes_by_index\<close> to a Node that is not in the store cannot
  arise (see the Node record) and is modelled as the end of the process.
\<close>

definition my_read ::
    "archive_t option \<Rightarrow> string \<Rightarrow> nat \<Rightarrow> int \<Rightarrow> Reader option \<Rightarrow> globals \<Rightarrow>
       (int \<times> byte list \<times> Reader option \<times> globals) outcome" where
  "my_read opened pathname dst_len offset fh st =
    (if offset < 0 \<or> dst_len > INT_MAX then Returns (- EINVAL, [], fh, st)
     else case fh of
       None \<Rightarrow> Returns (- EIO, [], fh, st)
     | Some r \<Rightarrow>
         if archive r = None \<or> archive_entry r = None then Returns (- EIO, [], fh, st)
         else (let i = nat (index_within_archive r mod 2 ^ 64)
               in if i \<ge> length (g_nodes_by_index st) then Returns (- EIO, [], fh, st)
                  else case g_nodes_by_index st ! i of
                    None \<Rightarrow> Returns (- EIO, [], fh, st)
                  | Some k \<Rightarrow>
                      (case g_nodes_by_name st k of
                         None \<Rightarrow> Aborts
                       | Some n \<Rightarrow>
                           if node_size n < 0 then Returns (- EIO, [], fh, st)
                           else if node_size n \<le> offset then Returns (0, [], fh, st)
                           else (let remaining = nat (node_size n - offset);
                                     dst_len = (if dst_len > remaining then remaining else dst_len)
                                 in if dst_len = 0 then Returns (0, [], fh, st)
                                    else case read_from_side_buffer (index_within_archive r) dst_len offset st of
                                      (True, bs, st1) \<Rightarrow> Returns (int dst_len, bs, fh, st1)
                                    | (False, xx, st1) \<Rightarrow>
                                        (case (if offset < offset_within_entry r
                                               then (case acquire_reader opened (index_within_archive r) st1 of
                                                       (None, st2) \<Rightarrow> (None, st2)
                                                     | (Some ur, st2) \<Rightarrow>
                                                         if archive ur = None \<or> archive_entry ur = None
                                                         then (None, st2)
                                                         else (case swap r ur of (r', ur') \<Rightarrow>
                                                                 (Some r', release_reader (Some ur') st2)))
                                               else (Some r, st1)) of
                                           (None, st3) \<Rightarrow> Returns (- EIO, [], fh, st3)
                                         | (Some r1, st3) \<Rightarrow>
                                             (case advance_offset offset pathname r1 st3 of
                                                Aborts \<Rightarrow> Aborts
                                              | Hangs \<Rightarrow> Hangs
                                              | Returns (ok, r2, st4) \<Rightarrow>
                                                  if \<not> ok then Returns (- EIO, [], Some r2, st4)
                                                  else (case reader_read r2 dst_len pathname of
                                                          Aborts \<Rightarrow> Aborts
                                                        | Hangs \<Rightarrow> Hangs
                                                        | Returns (n, bs, r3) \<Rightarrow>
                                                            Returns (n, bs, Some r3, st4))))))))"

text \<open>
  The last two statements of \<open>my_read\<close>, on the Reader \<open>r\<close>: advance to the offset, then
  read.
\<close>

definition advance_and_read ::
    "Reader \<Rightarrow> nat \<Rightarrow> int \<Rightarrow> string \<Rightarrow> globals \<Rightarrow> (int \<times> byte list \<times> Reader option \<times> globals) outcome" where
  "advance_and_read r dst_len offset pathname st =
    (case advance_offset offset pathname r st of
       Aborts \<Rightarrow> Aborts
     | Hangs \<Rightarrow> Hangs
     | Returns (ok, r2, st4) \<Rightarrow>
         if \<not> ok then Returns (- EIO, [], Some r2, st4)
         else (case reader_read r2 dst_len pathname of
                 Aborts \<Rightarrow> Aborts
               | Hangs \<Rightarrow> Hangs
               | Returns (n, bs, r3) \<Rightarrow> Returns (n, bs, Some r3, st4)))"


subsection \<open>In-memory directory tree\<close>

definition S_IFMT :: "32 word" where "S_IFMT = 61440"
definition S_IFSOCK :: "32 word" where "S_IFSOCK = 49152"
definition S_IFLNK :: "32 word" where "S_IFLNK = 40960"
definition S_IFREG :: "32 word" where "S_IFREG = 32768"
definition S_IFBLK :: "32 word" where "S_IFBLK = 24576"
definition S_IFDIR :: "32 word" where "S_IFDIR = 16384"
definition S_IFCHR :: "32 word" where "S_IFCHR = 8192"
definition S_IFIFO :: "32 word" where "S_IFIFO = 4096"

definition S_ISDIR :: "32 word \<Rightarrow> bool" where "S_ISDIR m = (m AND S_IFMT = S_IFDIR)"
definition S_ISBLK :: "32 word \<Rightarrow> bool" where "S_ISBLK m = (m AND S_IFMT = S_IFBLK)"
definition S_ISCHR :: "32 word \<Rightarrow> bool" where "S_ISCHR m = (m AND S_IFMT = S_IFCHR)"
definition S_ISFIFO :: "32 word \<Rightarrow> bool" where "S_ISFIFO m = (m AND S_IFMT = S_IFIFO)"
definition S_ISSOCK :: "32 word \<Rightarrow> bool" where "S_ISSOCK m = (m AND S_IFMT = S_IFSOCK)"
definition S_ISLNK :: "32 word \<Rightarrow> bool" where "S_ISLNK m = (m AND S_IFMT = S_IFLNK)"

definition block_size :: int where "block_size = 512"

definition is_dir :: "Node \<Rightarrow> bool" where
  "is_dir n = S_ISDIR (mode n)"

text \<open>The constructor \<open>Node(...)\<close>: the four links start as null pointers.\<close>

definition new_Node :: "string \<Rightarrow> string \<Rightarrow> int \<Rightarrow> int \<Rightarrow> int \<Rightarrow> 32 word \<Rightarrow> Node" where
  "new_Node a_rel_name a_symlink a_index a_size a_mtime a_mode =
    \<lparr>rel_name = a_rel_name, symlink = a_symlink, node_index_within_archive = a_index,
     node_size = a_size, mtime = a_mtime, mode = a_mode,
     parent = None, last_child = None, first_child = None, next_sibling = None\<rparr>"

text \<open>
  \<open>Node::get_block_count\<close>. The sum \<open>size + (block_size - 1)\<close> is the one place where an
  \<open>int64_t\<close> of the tree can leave the 64-bit range (a size within 511 of the greatest
  value); the reduction to 64 bits that the machine performs there is written out as
  \<open>int64_wrap\<close>. The division of C++ truncates towards zero.
\<close>

definition int64_wrap :: "int \<Rightarrow> int" where
  "int64_wrap x = (x + 2 ^ 63) mod 2 ^ 64 - 2 ^ 63"

definition get_block_count :: "Node \<Rightarrow> int" where
  "get_block_count n =
    (let x = int64_wrap (node_size n + (block_size - 1))
     in if x < 0 then - ((- x) div block_size) else x div block_size)"

text \<open>
  \<open>Node::add_child\<close>, called on the node at \<open>this\<close> with the node at \<open>n\<close>. The three
  \<open>assert\<close>s end the process when they fail, and so does a pointer that leads to no node.
  The assignments follow the source's order, each reading the store as the ones before
  left it.
\<close>

definition add_child :: "string \<Rightarrow> string \<Rightarrow> (string \<rightharpoonup> Node) \<Rightarrow> (string \<rightharpoonup> Node) outcome" where
  "add_child this n store =
    (case (store this, store n) of
       (Some t, Some c) \<Rightarrow>
         if parent c \<noteq> None \<or> \<not> is_dir t then Aborts
         else (let store1 = store(this \<mapsto> t\<lparr>node_size := node_size t + block_size\<rparr>);
                   store2 = (case store1 n of
                               None \<Rightarrow> store1
                             | Some c1 \<Rightarrow> store1(n \<mapsto> c1\<lparr>parent := Some this\<rparr>))
               in case store2 this of
                    None \<Rightarrow> Aborts
                  | Some t2 \<Rightarrow>
                      (case last_child t2 of
                         None \<Rightarrow>
                           Returns (store2(this \<mapsto> t2\<lparr>last_child := Some n, first_child := Some n\<rparr>))
                       | Some l \<Rightarrow>
                           (case store2 l of
                              None \<Rightarrow> Aborts
                            | Some ln \<Rightarrow>
                                (let store3 = store2(l \<mapsto> ln\<lparr>next_sibling := Some n\<rparr>)
                                 in case store3 this of
                                      None \<Rightarrow> Aborts
                                    | Some t3 \<Rightarrow>
                                        Returns (store3(this \<mapsto> t3\<lparr>last_child := Some n\<rparr>))))))
     | _ \<Rightarrow> Aborts)"

text \<open>
  \<open>valid_pathname\<close>. \<open>q\<close> is the text from the pointer \<open>q\<close> on; the inner loop moves \<open>r\<close>
  to the next slash or to the end, so the fragment is the text before the first slash and
  \<open>r\<close> points to what is left.
\<close>

function valid_pathname_loop :: "string \<Rightarrow> bool \<Rightarrow> bool" where
  "valid_pathname_loop q allow_slashes =
    (let frag = takeWhile (\<lambda>c. c \<noteq> CHR ''/'') q;
         r = dropWhile (\<lambda>c. c \<noteq> CHR ''/'') q
     in if r \<noteq> [] \<and> \<not> allow_slashes then False
        else if length frag = 0 then False
        else if length frag = 1 \<and> frag ! 0 = CHR ''.'' then False
        else if length frag = 2 \<and> frag ! 0 = CHR ''.'' \<and> frag ! 1 = CHR ''.'' then False
        else if r = [] then True
        else valid_pathname_loop (tl r) allow_slashes)"
  by pat_completeness auto
termination
proof (relation "measure (\<lambda>(q, allow_slashes). length q)", goal_cases)
  case 1
  show ?case by simp
next
  case (2 q allow_slashes frag r)
  have "length (dropWhile (\<lambda>c. c \<noteq> CHR ''/'') q) \<le> length q"
    by (rule length_dropWhile_le)
  with 2 show ?case by (cases "dropWhile (\<lambda>c. c \<noteq> CHR ''/'') q") auto
qed

declare valid_pathname_loop.simps [simp del]

definition valid_pathname :: "string option \<Rightarrow> bool \<Rightarrow> bool" where
  "valid_pathname p allow_slashes =
    (case p of
       None \<Rightarrow> False
     | Some s \<Rightarrow>
         if take 2 s = ''./''
         then (if \<not> allow_slashes then False
               else if drop 2 s = [] then False
               else valid_pathname_loop (drop 2 s) allow_slashes)
         else if take 1 s = ''/''
         then (if \<not> allow_slashes then False
               else if drop 1 s = [] then False
               else valid_pathname_loop (drop 1 s) allow_slashes)
         else if s = [] then False
         else valid_pathname_loop s allow_slashes)"

text \<open>\<open>normalize_pathname\<close>: the empty string is the rejection.\<close>

definition normalize_pathname :: "archive_entry_t \<Rightarrow> globals \<Rightarrow> string" where
  "normalize_pathname e st =
    (case (case entry_pathname_utf8 e of None \<Rightarrow> entry_pathname e | Some s \<Rightarrow> Some s) of
       None \<Rightarrow> []
     | Some s0 \<Rightarrow>
         (let s = (case g_archive_innername st of
                     None \<Rightarrow> s0
                   | Some inner \<Rightarrow>
                       if g_archive_is_raw st \<and> inner \<noteq> [] \<and> s0 = ''data'' then inner else s0)
          in if \<not> valid_pathname (Some s) True then []
             else if take 2 s = ''./'' then drop 1 s
             else if take 1 s = ''/'' then s
             else ''/'' @ s))"

text \<open>
  The loop of \<open>insert_leaf_node\<close>. \<open>pre\<close> is the text from \<open>p\<close> up to \<open>q\<close>, \<open>q\<close> the
  text from \<open>q\<close> on and \<open>parent\<close> the node the walk stands on, so \<open>abs_pathname\<close> is
  \<open>pre\<close> followed by the fragment. \<open>try_emplace\<close> fails exactly when the key is bound. The
  \<open>assert\<close> on \<open>g_nodes_by_index\<close> ends the process when it fails; after it, \<open>resize\<close> only
  grows the vector.
\<close>

function insert_leaf_node_loop ::
    "string \<Rightarrow> int \<Rightarrow> int \<Rightarrow> int \<Rightarrow> 32 word \<Rightarrow> 32 word \<Rightarrow> string \<Rightarrow> string \<Rightarrow> string \<Rightarrow> globals
       \<Rightarrow> (int \<times> globals) outcome" where
  "insert_leaf_node_loop a_symlink a_index a_size a_mtime branch_mode leaf_mode pre q parent0 st =
    (case g_nodes_by_name st parent0 of
       None \<Rightarrow> Aborts
     | Some pn \<Rightarrow>
         (let pn1 = (if mtime pn < a_mtime then pn\<lparr>mtime := a_mtime\<rparr> else pn);
              pn2 = pn1\<lparr>mode := mode pn1 OR branch_mode\<rparr>;
              st1 = st\<lparr>g_nodes_by_name := (g_nodes_by_name st)(parent0 \<mapsto> pn2)\<rparr>;
              frag = takeWhile (\<lambda>c. c \<noteq> CHR ''/'') q;
              r = dropWhile (\<lambda>c. c \<noteq> CHR ''/'') q;
              abs_pathname = pre @ frag;
              rel_pathname = frag
          in if r = []
             then (case g_nodes_by_name st1 abs_pathname of
                     Some existing \<Rightarrow> Returns (0, st1)
                   | None \<Rightarrow>
                       (let n = new_Node rel_pathname a_symlink a_index a_size a_mtime leaf_mode
                        in case add_child parent0 abs_pathname
                                  ((g_nodes_by_name st1)(abs_pathname \<mapsto> n)) of
                             Aborts \<Rightarrow> Aborts
                           | Hangs \<Rightarrow> Hangs
                           | Returns store \<Rightarrow>
                               if \<not> int (length (g_nodes_by_index st1)) \<le> a_index then Aborts
                               else Returns (0,
                                 st1\<lparr>g_nodes_by_name := store,
                                     g_block_count := g_block_count st1 + get_block_count n + 1,
                                     g_nodes_by_index :=
                                       g_nodes_by_index st1 @
                                       replicate (nat a_index - length (g_nodes_by_index st1)) None @
                                       [Some abs_pathname]\<rparr>)))
             else (case g_nodes_by_name st1 abs_pathname of
                     Some n \<Rightarrow>
                       if \<not> is_dir n then Returns (0, st1)
                       else insert_leaf_node_loop a_symlink a_index a_size a_mtime branch_mode
                              leaf_mode (pre @ frag @ ''/'') (tl r) abs_pathname st1
                   | None \<Rightarrow>
                       (let n = new_Node rel_pathname [] (- 1) 0 a_mtime branch_mode
                        in case add_child parent0 abs_pathname
                                  ((g_nodes_by_name st1)(abs_pathname \<mapsto> n)) of
                             Aborts \<Rightarrow> Aborts
                           | Hangs \<Rightarrow> Hangs
                           | Returns store \<Rightarrow>
                               insert_leaf_node_loop a_symlink a_index a_size a_mtime branch_mode
                                 leaf_mode (pre @ frag @ ''/'') (tl r) abs_pathname
                                 (st1\<lparr>g_nodes_by_name := store,
                                      g_block_count := g_block_count st1 + 1\<rparr>)))))"
  by pat_completeness auto
termination
proof (relation "measure (\<lambda>(a_symlink, a_index, a_size, a_mtime, branch_mode, leaf_mode, pre, q,
                               parent0, st). length q)", goal_cases)
  case 1
  show ?case by simp
next
  case (2 a_symlink a_index a_size a_mtime branch_mode leaf_mode pre q)
  have "length (dropWhile (\<lambda>c. c \<noteq> CHR ''/'') q) \<le> length q"
    by (rule length_dropWhile_le)
  with 2 show ?case by (cases "dropWhile (\<lambda>c. c \<noteq> CHR ''/'') q") auto
next
  case (3 a_symlink a_index a_size a_mtime branch_mode leaf_mode pre q)
  have "length (dropWhile (\<lambda>c. c \<noteq> CHR ''/'') q) \<le> length q"
    by (rule length_dropWhile_le)
  with 3 show ?case by (cases "dropWhile (\<lambda>c. c \<noteq> CHR ''/'') q") auto
qed

declare insert_leaf_node_loop.simps [simp del]

text \<open>The bits that \<open>insert_leaf_node\<close> computes from the entry's mode (0555 and 0444 octal).\<close>

definition branch_mode_of :: "32 word \<Rightarrow> 32 word" where
  "branch_mode_of a_mode =
    (let rx_bits = a_mode AND 365;
         r_bits = rx_bits AND 292
     in rx_bits OR drop_bit 2 r_bits OR S_IFDIR)"

definition leaf_mode_of :: "32 word \<Rightarrow> string \<Rightarrow> 32 word" where
  "leaf_mode_of a_mode a_symlink =
    (let rx_bits = a_mode AND 365
     in rx_bits OR (if a_symlink = [] then S_IFREG else S_IFLNK))"

definition insert_leaf_node ::
    "string \<Rightarrow> string \<Rightarrow> int \<Rightarrow> int \<Rightarrow> int \<Rightarrow> 32 word \<Rightarrow> globals \<Rightarrow> (int \<times> globals) outcome" where
  "insert_leaf_node pathname a_symlink a_index a_size a_mtime a_mode st =
    (if a_index < 0 then Returns (- EIO, st)
     else if pathname = [] \<or> hd pathname \<noteq> CHR ''/'' then Returns (0, st)
     else (case g_root_node st of
             None \<Rightarrow> Aborts
           | Some root \<Rightarrow>
               insert_leaf_node_loop a_symlink a_index a_size a_mtime (branch_mode_of a_mode)
                 (leaf_mode_of a_mode a_symlink) ''/'' (tl pathname) root st))"

text \<open>
  The loop of \<open>insert_leaf\<close> that measures an entry whose size is not set, reading into the
  side buffer \<open>SIDE_BUFFER_INDEX_DECOMPRESSED\<close> (1). It returns the size, or \<open>None\<close> when the
  library reports an error.
\<close>

function insert_leaf_size_loop ::
    "archive_t \<Rightarrow> int \<Rightarrow> globals \<Rightarrow> (int option \<times> archive_t \<times> globals) outcome" where
  "insert_leaf_size_loop a a_size st =
    (case archive_read_data a (nat SIDE_BUFFER_SIZE) of
       (ReadError, a') \<Rightarrow> Returns (None, a', st)
     | (Data bs, a') \<Rightarrow>
         if length bs = 0 then Returns (Some a_size, a', st)
         else if int (length bs) > SIDE_BUFFER_SIZE then Aborts
         else insert_leaf_size_loop a' (a_size + int (length bs))
                (st\<lparr>g_side_buffer_data := (g_side_buffer_data st)[1 :=
                       bs @ drop (length bs) (g_side_buffer_data st ! 1)]\<rparr>))"
  by pat_completeness auto
termination
  by (relation "measure (\<lambda>(a, a_size, st). length (reads a))")
     (auto simp: archive_read_data_def split: list.splits)

declare insert_leaf_size_loop.simps [simp del]

definition insert_leaf ::
    "archive_t \<Rightarrow> archive_entry_t \<Rightarrow> int \<Rightarrow> globals \<Rightarrow> (int \<times> archive_t \<times> globals) outcome" where
  "insert_leaf a e a_index st =
    (let pathname = normalize_pathname e st
     in if pathname = [] then Returns (0, a, st)
        else if S_ISBLK (entry_mode e) \<or> S_ISCHR (entry_mode e) \<or>
                S_ISFIFO (entry_mode e) \<or> S_ISSOCK (entry_mode e)
        then Returns (0, a, st)
        else (let a_symlink =
                    (if S_ISLNK (entry_mode e)
                     then (case (case entry_symlink_utf8 e of
                                   None \<Rightarrow> entry_symlink e
                                 | Some s \<Rightarrow> Some s) of
                             None \<Rightarrow> []
                           | Some s \<Rightarrow> s)
                     else [])
              in if S_ISLNK (entry_mode e) \<and> a_symlink = [] then Returns (0, a, st)
                 else (case (if \<not> entry_size_is_set e
                             then insert_leaf_size_loop a (entry_size e) st
                             else Returns (Some (entry_size e), a, st)) of
                         Aborts \<Rightarrow> Aborts
                       | Hangs \<Rightarrow> Hangs
                       | Returns (None, a', st') \<Rightarrow> Returns (- EIO, a', st')
                       | Returns (Some a_size, a', st') \<Rightarrow>
                           (case insert_leaf_node pathname a_symlink a_index a_size
                                   (entry_mtime e) (entry_mode e) st' of
                              Aborts \<Rightarrow> Aborts
                            | Hangs \<Rightarrow> Hangs
                            | Returns (rc, st'') \<Rightarrow> Returns (rc, a', st'')))))"

definition insert_root_node :: "globals \<Rightarrow> globals" where
  "insert_root_node st =
    st\<lparr>g_root_node := Some ''/'',
       g_nodes_by_name := (g_nodes_by_name st)(''/'' \<mapsto> new_Node [] [] (- 1) 0 0 S_IFDIR)\<rparr>"

text \<open>
  \<open>build_tree\<close>. Reading the data of an entry does not touch the headers still to come,
  which is why the loop ends. The \<open>option\<close> of the first \<open>case\<close> is the early return of
  the header step (\<open>Some rc\<close>) or its falling through to the body (\<open>None\<close>).
\<close>

lemma archive_read_data_headers:
  "archive_read_data a len = (x, a1) \<Longrightarrow> headers a1 = headers a"
  by (auto simp: archive_read_data_def split: list.splits)

lemma insert_leaf_size_loop_headers:
  "insert_leaf_size_loop a a_size st = Returns (res, a', st') \<Longrightarrow> headers a' = headers a"
proof (induction a a_size st rule: insert_leaf_size_loop.induct)
  case (1 a a_size st)
  obtain x a1 where rd: "archive_read_data a (nat SIDE_BUFFER_SIZE) = (x, a1)"
    by (cases "archive_read_data a (nat SIDE_BUFFER_SIZE)")
  note h = archive_read_data_headers [OF rd]
  show ?case
  proof (cases x)
    case ReadError
    with "1.prems" rd h show ?thesis
      by (simp add: insert_leaf_size_loop.simps [of a a_size st])
  next
    case (Data bs)
    show ?thesis
    proof (cases "length bs = 0 \<or> int (length bs) > SIDE_BUFFER_SIZE")
      case True
      with "1.prems" rd h Data show ?thesis
        by (auto simp: insert_leaf_size_loop.simps [of a a_size st] split: if_splits)
    next
      case False
      then have f: "length bs \<noteq> 0" "\<not> int (length bs) > SIDE_BUFFER_SIZE" by auto
      from "1.prems" rd Data f
      have "insert_leaf_size_loop a1 (a_size + int (length bs))
                (st\<lparr>g_side_buffer_data := (g_side_buffer_data st)[1 :=
                       bs @ drop (length bs) (g_side_buffer_data st ! 1)]\<rparr>) = Returns (res, a', st')"
        by (simp add: insert_leaf_size_loop.simps [of a a_size st])
      from "1.IH" [OF rd [symmetric] Data f this] h show ?thesis by simp
    qed
  qed
qed

lemma insert_leaf_headers:
  "insert_leaf a e a_index st = Returns (rc, a', st') \<Longrightarrow> headers a' = headers a"
  by (auto simp: insert_leaf_def Let_def
           split: if_splits outcome.splits option.splits prod.splits
           dest: insert_leaf_size_loop_headers)

function build_tree_loop :: "bool \<Rightarrow> globals \<Rightarrow> (int \<times> globals) outcome" where
  "build_tree_loop first st =
    (case (if first then Returns (None, st)
           else (case g_initialize_archive st of
                   None \<Rightarrow> Aborts
                 | Some a \<Rightarrow>
                     (case archive_read_next_header a of (status, e, a') \<Rightarrow>
                        (let st1 = st\<lparr>g_initialize_archive := Some a',
                                      g_initialize_archive_entry := e,
                                      g_initialize_index_within_archive :=
                                        g_initialize_index_within_archive st + 1\<rparr>
                         in if status = ARCHIVE_EOF then Returns (Some 0, st1)
                            else if status = ARCHIVE_WARN then Returns (None, st1)
                            else if status \<noteq> ARCHIVE_OK then Returns (Some (- EIO), st1)
                            else Returns (None, st1))))) of
       Aborts \<Rightarrow> Aborts
     | Hangs \<Rightarrow> Hangs
     | Returns (Some rc, st1) \<Rightarrow> Returns (rc, st1)
     | Returns (None, st1) \<Rightarrow>
         (case g_initialize_archive_entry st1 of
            None \<Rightarrow> Aborts
          | Some e \<Rightarrow>
              if S_ISDIR (entry_mode e) then build_tree_loop False st1
              else (case g_initialize_archive st1 of
                      None \<Rightarrow> Aborts
                    | Some a \<Rightarrow>
                        (case insert_leaf a e (g_initialize_index_within_archive st1) st1 of
                           Aborts \<Rightarrow> Aborts
                         | Hangs \<Rightarrow> Hangs
                         | Returns (rc, a', st2) \<Rightarrow>
                             if rc \<noteq> 0 then Returns (rc, st2\<lparr>g_initialize_archive := Some a'\<rparr>)
                             else build_tree_loop False (st2\<lparr>g_initialize_archive := Some a'\<rparr>)))))"
  by pat_completeness auto
termination
proof (relation "measure (\<lambda>(first, st).
          2 * (case g_initialize_archive st of None \<Rightarrow> 0 | Some a \<Rightarrow> length (headers a)) +
          (if first then 1 else 0))", goal_cases)
  case 1
  show ?case by simp
next
  case (2 first st x2 x1 st1 e)
  then show ?case
    by (auto simp: archive_read_next_header_def Let_def
             split: if_splits option.splits list.splits prod.splits)
next
  case (3 first st x2 x1 st1 e a x2a rc y a' st2)
  from 3 have il: "insert_leaf a e (g_initialize_index_within_archive st1) st1 = Returns (rc, a', st2)"
    by simp
  note hd = insert_leaf_headers [OF il]
  from 3 hd show ?case
    by (auto simp: archive_read_next_header_def Let_def
             split: if_splits option.splits list.splits prod.splits)
qed

declare build_tree_loop.simps [simp del]

definition build_tree :: "globals \<Rightarrow> (int \<times> globals) outcome" where
  "build_tree st =
    (if g_initialize_index_within_archive st < 0 then Returns (- EIO, st)
     else build_tree_loop True st)"

text \<open>\<open>post_initialize_sync\<close>; the file descriptor and the progress message are left out.\<close>

definition post_initialize_sync :: "globals \<Rightarrow> (int \<times> globals) outcome" where
  "post_initialize_sync st =
    (if g_root_node st \<noteq> None then Returns (0, st)
     else (case build_tree (insert_root_node st) of
             Aborts \<Rightarrow> Aborts
           | Hangs \<Rightarrow> Hangs
           | Returns (error, st1) \<Rightarrow>
               Returns (error,
                 st1\<lparr>g_initialize_archive := None,
                     g_initialize_archive_entry := None,
                     g_initialize_index_within_archive := - 1\<rparr>)))"

text \<open>
  For stating what \<open>valid_pathname\<close> accepts, in the words of its comment: the fragments
  of a pathname, splitting on the slash, and the pathname without one leading \<open>./\<close> or
  \<open>/\<close>. \<open>entry_pathname_of\<close> is the pathname that \<open>normalize_pathname\<close> takes from the
  entry (UTF-8 first).
\<close>

fun fragments :: "string \<Rightarrow> string list" where
  "fragments [] = [[]]"
| "fragments (c # cs) =
    (if c = CHR ''/'' then [] # fragments cs
     else (case fragments cs of [] \<Rightarrow> [[c]] | x # xs \<Rightarrow> (c # x) # xs))"

definition strip_leading :: "string \<Rightarrow> string" where
  "strip_leading s =
    (if take 2 s = ''./'' then drop 2 s else if take 1 s = ''/'' then drop 1 s else s)"

definition good_fragment :: "string \<Rightarrow> bool" where
  "good_fragment c = (c \<noteq> [] \<and> c \<noteq> ''.'' \<and> c \<noteq> ''..'')"

definition entry_pathname_of :: "archive_entry_t \<Rightarrow> string option" where
  "entry_pathname_of e =
    (case entry_pathname_utf8 e of None \<Rightarrow> entry_pathname e | Some s \<Rightarrow> Some s)"

subsection \<open>What the tree is meant to keep\<close>

text \<open>
  The notions in which the comments of \<open>insert_leaf_node\<close> and of \<open>Node\<close> speak about
  the tree. \<open>propagated_bits\<close> are the permission bits that an entry of mode \<open>m\<close> hands to
  the directories above it: its read and execute bits, each read bit mirrored into the
  execute position beside it. \<open>bits_le x y\<close> says that every bit of \<open>x\<close> is set in \<open>y\<close>.
\<close>

definition propagated_bits :: "32 word \<Rightarrow> 32 word" where
  "propagated_bits m = (m AND 365) OR drop_bit 2 (m AND 292)"

definition bits_le :: "32 word \<Rightarrow> 32 word \<Rightarrow> bool" where
  "bits_le x y = (x OR y = y)"

text \<open>
  A node's key is its absolute pathname. \<open>key_of pre\<close> is the key of the directory whose
  prefix (the pathname with its closing slash) is \<open>pre\<close>, and \<open>dirkey k\<close> the key of the
  directory that holds the name \<open>k\<close>.
\<close>

definition key_of :: "string \<Rightarrow> string" where
  "key_of pre = (if pre = ''/'' then ''/'' else butlast pre)"

definition dirkey :: "string \<Rightarrow> string" where
  "dirkey k = key_of (rev (dropWhile (\<lambda>c. c \<noteq> CHR ''/'') (rev k)))"

text \<open>
  What a node hands upwards (\<open>carried\<close>), and the shape of a tree: the root is a directory
  without parent, every other node hangs below the directory named by its pathname, a
  directory has no bits outside its type and 0555, and a parent is a directory that is
  at least as recent as its child and holds what the child hands upwards.
\<close>

definition carried :: "Node \<Rightarrow> 32 word" where
  "carried n = (if is_dir n then mode n else propagated_bits (mode n))"

definition store_inv :: "(string \<rightharpoonup> Node) \<Rightarrow> bool" where
  "store_inv store =
    ((\<exists>r. store ''/'' = Some r \<and> is_dir r \<and> parent r = None) \<and>
     (\<forall>k n. store k = Some n \<longrightarrow>
        (k \<noteq> ''/'' \<longrightarrow> parent n = Some (dirkey k)) \<and>
        (is_dir n \<longrightarrow> bits_le (mode n) (S_IFDIR OR 365)) \<and>
        (\<forall>pk. parent n = Some pk \<longrightarrow>
           (\<exists>pn. store pk = Some pn \<and> is_dir pn \<and> mtime n \<le> mtime pn \<and>
                 bits_le (carried n) (mode pn)))))"

definition tree_inv :: "globals \<Rightarrow> bool" where
  "tree_inv st = (g_root_node st = Some ''/'' \<and> store_inv (g_nodes_by_name st))"

text \<open>
  The first half of the body of the loop of \<open>build_tree\<close>, up to the test on the type of
  the entry.
\<close>

definition build_tree_header :: "bool \<Rightarrow> globals \<Rightarrow> (int option \<times> globals) outcome" where
  "build_tree_header first st =
    (if first then Returns (None, st)
           else (case g_initialize_archive st of
                   None \<Rightarrow> Aborts
                 | Some a \<Rightarrow>
                     (case archive_read_next_header a of (status, e, a') \<Rightarrow>
                        (let st1 = st\<lparr>g_initialize_archive := Some a',
                                      g_initialize_archive_entry := e,
                                      g_initialize_index_within_archive :=
                                        g_initialize_index_within_archive st + 1\<rparr>
                         in if status = ARCHIVE_EOF then Returns (Some 0, st1)
                            else if status = ARCHIVE_WARN then Returns (None, st1)
                            else if status \<noteq> ARCHIVE_OK then Returns (Some (- EIO), st1)
                            else Returns (None, st1)))))"

text \<open>
  \<open>descends store k d\<close>: following the parent pointers from \<open>k\<close> reaches \<open>d\<close>.
  \<open>union_of_leaves store d m\<close>: the mode \<open>m\<close> is the directory-type bit together with
  the propagated bits of the leaves that descend from \<open>d\<close>, and nothing else.
  \<open>mtime_of_a_leaf store d t\<close>: \<open>t\<close> is the mtime of a leaf that descends from \<open>d\<close>, which
  is what the comment in \<open>insert_leaf_node\<close> says of a directory's mtime.
\<close>

inductive descends :: "(string \<rightharpoonup> Node) \<Rightarrow> string \<Rightarrow> string \<Rightarrow> bool" for store where
  child: "store k = Some n \<Longrightarrow> parent n = Some d \<Longrightarrow> descends store k d"
| deeper: "store k = Some n \<Longrightarrow> parent n = Some p \<Longrightarrow> descends store p d \<Longrightarrow> descends store k d"

definition union_of_leaves :: "(string \<rightharpoonup> Node) \<Rightarrow> string \<Rightarrow> 32 word \<Rightarrow> bool" where
  "union_of_leaves store d m =
    (\<forall>i. bit m i \<longleftrightarrow>
       bit S_IFDIR i \<or>
       (\<exists>l ln. descends store l d \<and> store l = Some ln \<and> \<not> is_dir ln \<and>
               bit (propagated_bits (mode ln)) i))"

definition mtime_of_a_leaf :: "(string \<rightharpoonup> Node) \<Rightarrow> string \<Rightarrow> int \<Rightarrow> bool" where
  "mtime_of_a_leaf store d t =
    (\<exists>l ln. descends store l d \<and> store l = Some ln \<and> \<not> is_dir ln \<and> mtime ln = t)"

text \<open>
  The walk of \<open>insert_leaf_node\<close> over a tree, as far as a collision is concerned.
  \<open>collision_walk store pre q\<close> follows the fragments of \<open>q\<close> from the directory of prefix
  \<open>pre\<close>. It is \<open>Some ks\<close> when the walk ends at a name that is taken: the last fragment
  names an existing node, or a fragment before the last names a node that is not a
  directory; \<open>ks\<close> are the keys of the directories passed on the way, in order, whether
  they exist or would have to be created. It is \<open>None\<close> when the last name is free.
  \<open>widened mt bm n\<close> is the node \<open>n\<close> once such a walk has passed it.
\<close>

function collision_walk :: "(string \<rightharpoonup> Node) \<Rightarrow> string \<Rightarrow> string \<Rightarrow> string list option" where
  "collision_walk store pre q =
    (let frag = takeWhile (\<lambda>c. c \<noteq> CHR ''/'') q;
         r = dropWhile (\<lambda>c. c \<noteq> CHR ''/'') q;
         ak = pre @ frag
     in if r = [] then (if store ak = None then None else Some [])
        else if (case store ak of None \<Rightarrow> False | Some n \<Rightarrow> \<not> is_dir n) then Some []
        else map_option ((#) ak) (collision_walk store (pre @ frag @ ''/'') (tl r)))"
  by pat_completeness auto
termination
proof (relation "measure (\<lambda>(store, pre, q). length q)", goal_cases)
  case 1
  show ?case by simp
next
  case (2 store pre q)
  have "length (dropWhile (\<lambda>c. c \<noteq> CHR ''/'') q) \<le> length q"
    by (rule length_dropWhile_le)
  with 2 show ?case by (cases "dropWhile (\<lambda>c. c \<noteq> CHR ''/'') q") auto
qed

declare collision_walk.simps [simp del]

definition widened :: "int \<Rightarrow> 32 word \<Rightarrow> Node \<Rightarrow> Node" where
  "widened mt bm n = n\<lparr>mtime := max (mtime n) mt, mode := mode n OR bm\<rparr>"

subsection \<open>A small concrete state\<close>

text \<open>
  Two side buffers hold data of entry 3 (bytes 8 to 13 and bytes 4 to 15 of it), the
  others are empty; the reader cache and the tree are empty.
\<close>

definition empty_metadata :: side_buffer_metadata where
  "empty_metadata =
    \<lparr>sbm_index_within_archive = - 1, sbm_offset_within_entry = - 1,
     sbm_length = - 1, sbm_lru_priority = 0\<rparr>"

definition example_globals :: globals where
  "example_globals =
    \<lparr>g_side_buffer_data =
       [[18, 19, 20, 21, 22, 23], [14, 15, 16, 17, 18, 19, 20, 21, 22, 23, 24, 25],
        [], [], [], [], [], []],
     g_side_buffer_metadata =
       [\<lparr>sbm_index_within_archive = 3, sbm_offset_within_entry = 8,
          sbm_length = 6, sbm_lru_priority = 1\<rparr>,
        \<lparr>sbm_index_within_archive = 3, sbm_offset_within_entry = 4,
          sbm_length = 12, sbm_lru_priority = 2\<rparr>,
        empty_metadata, empty_metadata, empty_metadata,
        empty_metadata, empty_metadata, empty_metadata],
     next_lru_priority = 2,
     g_saved_readers = [(None, 0), (None, 0), (None, 0), (None, 0),
                        (None, 0), (None, 0), (None, 0), (None, 0)],
     release_reader_next_lru_priority = 0,
     g_nodes_by_name = Map.empty,
     g_nodes_by_index = [],
     g_root_node = None,
     g_block_count = 1,
     g_archive_is_raw = False,
     g_archive_innername = None,
     g_initialize_archive = None,
     g_initialize_archive_entry = None,
     g_initialize_index_within_archive = - 1\<rparr>"

definition example_entry :: archive_entry_t where
  "example_entry =
    \<lparr>entry_pathname_utf8 = Some ''docs/a.txt'', entry_pathname = Some ''docs/a.txt'',
     entry_mode = 33188, entry_symlink_utf8 = None, entry_symlink = None,
     entry_size = 200000, entry_size_is_set = True, entry_mtime = 1700000000\<rparr>"

definition example_archive :: archive_t where
  "example_archive =
    \<lparr>headers = [(ARCHIVE_OK, Some example_entry), (ARCHIVE_WARN, Some example_entry)],
     reads = [\<lambda>n. Data [7], \<lambda>n. Data (replicate 131072 0), \<lambda>n. Data [9]],
     asked = []\<rparr>"

definition example_reader :: Reader where
  "example_reader =
    \<lparr>archive = Some example_archive,
     archive_entry = Some example_entry,
     index_within_archive = 3,
     offset_within_entry = 5\<rparr>"

definition example_cache :: globals where
  "example_cache =
    example_globals\<lparr>g_saved_readers :=
      [(Some (example_reader\<lparr>index_within_archive := 2, offset_within_entry := 7\<rparr>), 1),
       (Some (example_reader\<lparr>offset_within_entry := 0\<rparr>), 2),
       (None, 0), (None, 0), (None, 0), (None, 0), (None, 0), (None, 0)]\<rparr>"

definition example_leaf :: Node where
  "example_leaf =
    \<lparr>rel_name = ''a.txt'', symlink = [], node_index_within_archive = 3, node_size = 14,
     mtime = 1700000000, mode = 33060,
     parent = Some ''/docs'', last_child = None, first_child = None, next_sibling = None\<rparr>"

definition example_tree :: globals where
  "example_tree =
    example_globals\<lparr>
      g_nodes_by_name :=
        [''/'' \<mapsto> \<lparr>rel_name = [], symlink = [], node_index_within_archive = - 1, node_size = 512,
                    mtime = 1700000000, mode = 16749,
                    parent = None, last_child = Some ''/docs'', first_child = Some ''/docs'',
                    next_sibling = None\<rparr>,
         ''/docs'' \<mapsto> \<lparr>rel_name = ''docs'', symlink = [], node_index_within_archive = - 1,
                    node_size = 512, mtime = 1700000000, mode = 16749,
                    parent = Some ''/'', last_child = Some ''/docs/a.txt'',
                    first_child = Some ''/docs/a.txt'', next_sibling = None\<rparr>,
         ''/docs/a.txt'' \<mapsto> example_leaf],
      g_nodes_by_index := [None, None, None, Some ''/docs/a.txt''],
      g_root_node := Some ''/'',
      g_block_count := 4\<rparr>"

definition evil_entry :: archive_entry_t where
  "evil_entry = example_entry\<lparr>entry_pathname_utf8 := Some ''../evil'', entry_pathname := None\<rparr>"

text \<open>
  An archive of two entries of the same name \<open>d/a\<close>, the second more permissive and more
  recent than the first, at the moment \<open>post_initialize_sync\<close> starts: the first header has
  been read. \<open>root_store\<close> is the tree after \<open>insert_root_node\<close>, \<open>one_leaf_store\<close> after the
  first entry, and \<open>collision_tree\<close> the state after the bootstrap.
\<close>

definition first_entry :: archive_entry_t where
  "first_entry =
    \<lparr>entry_pathname_utf8 = Some ''d/a'', entry_pathname = None,
     entry_mode = 33024, entry_symlink_utf8 = None, entry_symlink = None,
     entry_size = 3, entry_size_is_set = True, entry_mtime = 5\<rparr>"

definition second_entry :: archive_entry_t where
  "second_entry = first_entry\<lparr>entry_mode := 33279, entry_mtime := 9\<rparr>"

definition collision_bootstrap :: globals where
  "collision_bootstrap =
    example_globals\<lparr>
      g_initialize_archive := Some \<lparr>headers = [(ARCHIVE_OK, Some second_entry)], reads = [],
                                     asked = []\<rparr>,
      g_initialize_archive_entry := Some first_entry,
      g_initialize_index_within_archive := 0\<rparr>"

definition root_store :: "string \<rightharpoonup> Node" where
  "root_store = [''/'' \<mapsto> new_Node [] [] (- 1) 0 0 S_IFDIR]"

definition one_leaf_store :: "string \<rightharpoonup> Node" where
  "one_leaf_store =
        [''/'' \<mapsto> \<lparr>rel_name = [], symlink = [], node_index_within_archive = - 1, node_size = 512,
                    mtime = 5, mode = 16704,
                    parent = None, last_child = Some ''/d'', first_child = Some ''/d'',
                    next_sibling = None\<rparr>,
         ''/d'' \<mapsto> \<lparr>rel_name = ''d'', symlink = [], node_index_within_archive = - 1,
                    node_size = 512, mtime = 5, mode = 16704,
                    parent = Some ''/'', last_child = Some ''/d/a'',
                    first_child = Some ''/d/a'', next_sibling = None\<rparr>,
         ''/d/a'' \<mapsto> \<lparr>rel_name = ''a'', symlink = [], node_index_within_archive = 0,
                    node_size = 3, mtime = 5, mode = 33024,
                    parent = Some ''/d'', last_child = None, first_child = None,
                    next_sibling = None\<rparr>]"

definition collision_tree :: globals where
  "collision_tree =
    example_globals\<lparr>
      g_nodes_by_name :=
        [''/'' \<mapsto> \<lparr>rel_name = [], symlink = [], node_index_within_archive = - 1, node_size = 512,
                    mtime = 9, mode = 16749,
                    parent = None, last_child = Some ''/d'', first_child = Some ''/d'',
                    next_sibling = None\<rparr>,
         ''/d'' \<mapsto> \<lparr>rel_name = ''d'', symlink = [], node_index_within_archive = - 1,
                    node_size = 512, mtime = 9, mode = 16749,
                    parent = Some ''/'', last_child = Some ''/d/a'',
                    first_child = Some ''/d/a'', next_sibling = None\<rparr>,
         ''/d/a'' \<mapsto> \<lparr>rel_name = ''a'', symlink = [], node_index_within_archive = 0,
                    node_size = 3, mtime = 5, mode = 33024,
                    parent = Some ''/d'', last_child = None, first_child = None,
                    next_sibling = None\<rparr>],
      g_nodes_by_index := [Some ''/d/a''],
      g_root_node := Some ''/'',
      g_block_count := 4\<rparr>"

text \<open>The state after the first of the two entries alone.\<close>

definition one_leaf_tree :: globals where
  "one_leaf_tree =
    example_globals\<lparr>g_nodes_by_name := one_leaf_store,
                    g_nodes_by_index := [Some ''/d/a''],
                    g_root_node := Some ''/'',
                    g_block_count := 4\<rparr>"



text \<open>The tree of the example with every side buffer empty.\<close>

definition bare_tree :: globals where
  "bare_tree =
    example_tree\<lparr>g_side_buffer_metadata :=
      [empty_metadata, empty_metadata, empty_metadata, empty_metadata,
       empty_metadata, empty_metadata, empty_metadata, empty_metadata]\<rparr>"


section \<open>Properties\<close>

subsection \<open>Unrolling the fixed-size array loops\<close>

lemma upt_8: "[0..<8] = [0, 1, 2, 3, 4, 5, 6, 7::nat]"
  by code_simp

lemma all_less_8: "(\<forall>j<8::nat. P j) = (P 0 \<and> P 1 \<and> P 2 \<and> P 3 \<and> P 4 \<and> P 5 \<and> P 6 \<and> P 7)"
proof -
  have "(\<forall>j<8::nat. P j) = (\<forall>j \<in> set [0..<8]. P j)" by auto
  then show ?thesis by (simp add: upt_8)
qed

subsection \<open>The concrete state\<close>

lemma example_reader_simps:
  "archive example_reader = Some example_archive"
  "archive_entry example_reader = Some example_entry"
  "index_within_archive example_reader = 3"
  "offset_within_entry example_reader = 5"
  by (simp_all add: example_reader_def)

lemma example_archive_simps:
  "headers example_archive = [(ARCHIVE_OK, Some example_entry), (ARCHIVE_WARN, Some example_entry)]"
  "reads example_archive = [\<lambda>n. Data [7], \<lambda>n. Data (replicate 131072 0), \<lambda>n. Data [9]]"
  "asked example_archive = []"
  by (simp_all add: example_archive_def)

subsection \<open>Passphrase error classification\<close>

lemma starts_with_any_iff: "starts_with_any e ps = (\<exists>p \<in> set ps. starts_with e p)"
  by (induction ps) auto

lemma incorrect_excludes_required:
  "starts_with e ''Passphrase required'' \<Longrightarrow> \<not> starts_with e ''Incorrect passphrase''"
  by (cases e) auto

lemma unsupported_excludes_others:
  "starts_with_any e not_supported_prefixes \<Longrightarrow>
     \<not> starts_with e ''Incorrect passphrase'' \<and> \<not> starts_with e ''Passphrase required''"
  by (cases e) (auto simp: not_supported_prefixes_def)

text \<open>
  C6. The classification of a library error message goes by prefix: a message starting
  with "Incorrect passphrase" gives exit code 21, one starting with "Passphrase required"
  gives 20, one starting with any of the eight unsupported-encryption messages gives 22,
  and every other message gives 32. The four implications hold together for every
  message, so the cases exclude each other and each message has exactly one code.
\<close>

theorem determine_passphrase_exit_code_by_prefix:
  "(starts_with e ''Incorrect passphrase'' \<longrightarrow> determine_passphrase_exit_code e = 21) \<and>
   (starts_with e ''Passphrase required'' \<longrightarrow> determine_passphrase_exit_code e = 20) \<and>
   ((\<exists>p \<in> set not_supported_prefixes. starts_with e p) \<longrightarrow> determine_passphrase_exit_code e = 22) \<and>
   (\<not> starts_with e ''Incorrect passphrase'' \<and> \<not> starts_with e ''Passphrase required'' \<and>
      \<not> (\<exists>p \<in> set not_supported_prefixes. starts_with e p) \<longrightarrow>
        determine_passphrase_exit_code e = 32)"
proof -
  have a: "starts_with e ''Incorrect passphrase'' \<Longrightarrow> determine_passphrase_exit_code e = 21"
    by (simp add: determine_passphrase_exit_code_def EXIT_CODE_PASSPHRASE_INCORRECT_def)
  have b: "starts_with e ''Passphrase required'' \<Longrightarrow> determine_passphrase_exit_code e = 20"
    using incorrect_excludes_required [of e]
    by (simp add: determine_passphrase_exit_code_def EXIT_CODE_PASSPHRASE_REQUIRED_def)
  have c: "starts_with_any e not_supported_prefixes \<Longrightarrow> determine_passphrase_exit_code e = 22"
    using unsupported_excludes_others [of e]
    by (simp add: determine_passphrase_exit_code_def EXIT_CODE_PASSPHRASE_NOT_SUPPORTED_def)
  have d: "\<not> starts_with e ''Incorrect passphrase'' \<Longrightarrow> \<not> starts_with e ''Passphrase required''
      \<Longrightarrow> \<not> starts_with_any e not_supported_prefixes \<Longrightarrow> determine_passphrase_exit_code e = 32"
    by (simp add: determine_passphrase_exit_code_def EXIT_CODE_INVALID_ARCHIVE_CONTENTS_def)
  show ?thesis
    using a b c d by (simp add: starts_with_any_iff)
qed

theorem determine_passphrase_exit_code_by_prefix_witness:
  "determine_passphrase_exit_code ''Incorrect passphrase for entry'' = 21 \<and>
   determine_passphrase_exit_code ''Passphrase required for this entry'' = 20 \<and>
   determine_passphrase_exit_code ''RAR encryption support unavailable.'' = 22 \<and>
   determine_passphrase_exit_code ''Truncated input'' = 32"
proof -
  have 1: "determine_passphrase_exit_code ''Incorrect passphrase for entry'' = 21"
    using determine_passphrase_exit_code_by_prefix [of "''Incorrect passphrase for entry''"]
    by simp
  have 2: "determine_passphrase_exit_code ''Passphrase required for this entry'' = 20"
    using determine_passphrase_exit_code_by_prefix [of "''Passphrase required for this entry''"]
    by simp
  have 3: "determine_passphrase_exit_code ''RAR encryption support unavailable.'' = 22"
    using determine_passphrase_exit_code_by_prefix [of "''RAR encryption support unavailable.''"]
    by (simp add: not_supported_prefixes_def)
  have 4: "determine_passphrase_exit_code ''Truncated input'' = 32"
    using determine_passphrase_exit_code_by_prefix [of "''Truncated input''"]
    by (simp add: not_supported_prefixes_def)
  show ?thesis using 1 2 3 4 by simp
qed

subsection \<open>Side-buffer lookup\<close>

lemma contains_iff:
  "0 \<le> idx \<Longrightarrow> contains m idx off len \<longleftrightarrow>
     (sbm_index_within_archive m = idx \<and> sbm_offset_within_entry m \<le> off \<and>
      sbm_length m - (off - sbm_offset_within_entry m) \<ge> int len)"
  by (auto simp: contains_def Let_def)

lemma contains_empty: "sbm_index_within_archive m = - 1 \<Longrightarrow> \<not> contains m idx off len"
  by (simp add: contains_def)

lemma contains_length_nonneg: "contains m idx off len \<Longrightarrow> 0 \<le> sbm_length m"
  by (auto simp: contains_def Let_def split: if_splits)

lemma read_from_side_buffer_fold:
  "fold (read_from_side_buffer_step metas idx off len) [0..<n] (- 1, - 1) = (best_i, best_length) \<Longrightarrow>
     (best_i = - 1 \<and> best_length = - 1 \<and> (\<forall>j<n. \<not> contains (metas ! j) idx off len)) \<or>
     (0 \<le> best_i \<and> nat best_i < n \<and> contains (metas ! nat best_i) idx off len \<and>
      best_length = sbm_length (metas ! nat best_i) \<and>
      (\<forall>j<n. contains (metas ! j) idx off len \<longrightarrow> sbm_length (metas ! j) \<le> best_length))"
proof (induction n arbitrary: best_i best_length)
  case 0
  then show ?case by simp
next
  case (Suc n)
  obtain bi bl where acc:
    "fold (read_from_side_buffer_step metas idx off len) [0..<n] (- 1, - 1) = (bi, bl)"
    by (cases "fold (read_from_side_buffer_step metas idx off len) [0..<n] (- 1, - 1)")
  have step: "read_from_side_buffer_step metas idx off len n (bi, bl) = (best_i, best_length)"
    using Suc.prems acc by simp
  show ?case
    using Suc.IH [OF acc] step contains_length_nonneg [of "metas ! n" idx off len]
    unfolding read_from_side_buffer_step_def
    by (auto simp: less_Suc_eq split: if_splits)
qed


lemma read_from_side_buffer_miss:
  assumes "\<forall>j<NUM_SIDE_BUFFERS. \<not> contains (g_side_buffer_metadata st ! j) idx off len"
  shows "read_from_side_buffer idx len off st = (False, [], st)"
proof -
  obtain bi bl where acc:
    "fold (read_from_side_buffer_step (g_side_buffer_metadata st) idx off len)
       [0..<NUM_SIDE_BUFFERS] (- 1, - 1) = (bi, bl)"
    by (cases "fold (read_from_side_buffer_step (g_side_buffer_metadata st) idx off len)
       [0..<NUM_SIDE_BUFFERS] (- 1, - 1)")
  from read_from_side_buffer_fold [OF acc] assms have "bi = - 1" by auto
  then show ?thesis by (simp add: read_from_side_buffer_def Let_def acc)
qed

lemma read_from_side_buffer_hit:
  assumes "\<exists>j<NUM_SIDE_BUFFERS. contains (g_side_buffer_metadata st ! j) idx off len"
  shows "\<exists>b<NUM_SIDE_BUFFERS.
           contains (g_side_buffer_metadata st ! b) idx off len \<and>
           (\<forall>j<NUM_SIDE_BUFFERS. contains (g_side_buffer_metadata st ! j) idx off len \<longrightarrow>
              sbm_length (g_side_buffer_metadata st ! j) \<le> sbm_length (g_side_buffer_metadata st ! b)) \<and>
           read_from_side_buffer idx len off st =
             (True,
              take len (drop (nat (off - sbm_offset_within_entry (g_side_buffer_metadata st ! b)))
                          (g_side_buffer_data st ! b)),
              st\<lparr>g_side_buffer_metadata := (g_side_buffer_metadata st)[b :=
                    (g_side_buffer_metadata st ! b)\<lparr>sbm_lru_priority := (next_lru_priority st + 1) mod 2 ^ 64\<rparr>],
                 next_lru_priority := (next_lru_priority st + 1) mod 2 ^ 64\<rparr>)"
proof -
  let ?metas = "g_side_buffer_metadata st"
  obtain bi bl where acc:
    "fold (read_from_side_buffer_step ?metas idx off len) [0..<NUM_SIDE_BUFFERS] (- 1, - 1) = (bi, bl)"
    by (cases "fold (read_from_side_buffer_step ?metas idx off len) [0..<NUM_SIDE_BUFFERS] (- 1, - 1)")
  from read_from_side_buffer_fold [OF acc] assms
  have b: "0 \<le> bi" "nat bi < NUM_SIDE_BUFFERS" "contains (?metas ! nat bi) idx off len"
    "bl = sbm_length (?metas ! nat bi)"
    "\<forall>j<NUM_SIDE_BUFFERS. contains (?metas ! j) idx off len \<longrightarrow> sbm_length (?metas ! j) \<le> bl"
    by auto
  have r: "read_from_side_buffer idx len off st =
             (True,
              take len (drop (nat (off - sbm_offset_within_entry (?metas ! nat bi)))
                          (g_side_buffer_data st ! nat bi)),
              st\<lparr>g_side_buffer_metadata := ?metas[nat bi :=
                    (?metas ! nat bi)\<lparr>sbm_lru_priority := (next_lru_priority st + 1) mod 2 ^ 64\<rparr>],
                 next_lru_priority := (next_lru_priority st + 1) mod 2 ^ 64\<rparr>)"
    using b(1) by (simp add: read_from_side_buffer_def Let_def acc)
  show ?thesis
    using b(2,3,5) r unfolding b(4) by (intro exI [of _ "nat bi"]) simp
qed

lemma contains_copy_length:
  assumes "contains m idx off len" and "nat (sbm_length m) \<le> length buf"
  shows "length (take len (drop (nat (off - sbm_offset_within_entry m)) buf)) = len"
  using assms by (simp add: contains_def Let_def split: if_splits) linarith

text \<open>
  C3. For a request \<open>(idx, off, len)\<close> with \<open>idx \<ge> 0\<close>: a buffer covers the request exactly
  when its metadata has the index \<open>idx\<close>, an offset at most \<open>off\<close>, and
  \<open>length - (off - offset) \<ge> len\<close>; an empty buffer (index \<open>-1\<close>) covers nothing. When no
  buffer of the pool covers the request, the lookup returns false and changes nothing.
  When one does, the lookup picks a covering buffer \<open>b\<close> whose length is greatest among the
  covering ones, returns true with the \<open>len\<close> bytes at \<open>data + (off - offset)\<close> of \<open>b\<close>,
  and sets both the counter and the priority of \<open>b\<close> to the incremented counter; that
  value exceeds every priority of the pool when none exceeded the counter before and the
  counter does not wrap.
\<close>

theorem read_from_side_buffer_lookup:
  assumes idx: "0 \<le> idx"
  shows
    "(contains m idx off len \<longleftrightarrow>
        (sbm_index_within_archive m = idx \<and> sbm_offset_within_entry m \<le> off \<and>
         sbm_length m - (off - sbm_offset_within_entry m) \<ge> int len)) \<and>
     (sbm_index_within_archive m = - 1 \<longrightarrow> \<not> contains m idx off len) \<and>
     ((\<forall>j<NUM_SIDE_BUFFERS. \<not> contains (g_side_buffer_metadata st ! j) idx off len) \<longrightarrow>
        read_from_side_buffer idx len off st = (False, [], st)) \<and>
     ((\<exists>j<NUM_SIDE_BUFFERS. contains (g_side_buffer_metadata st ! j) idx off len) \<longrightarrow>
        (\<exists>b<NUM_SIDE_BUFFERS.
           contains (g_side_buffer_metadata st ! b) idx off len \<and>
           (\<forall>j<NUM_SIDE_BUFFERS. contains (g_side_buffer_metadata st ! j) idx off len \<longrightarrow>
              sbm_length (g_side_buffer_metadata st ! j) \<le> sbm_length (g_side_buffer_metadata st ! b)) \<and>
           read_from_side_buffer idx len off st =
             (True,
              take len (drop (nat (off - sbm_offset_within_entry (g_side_buffer_metadata st ! b)))
                          (g_side_buffer_data st ! b)),
              st\<lparr>g_side_buffer_metadata := (g_side_buffer_metadata st)[b :=
                    (g_side_buffer_metadata st ! b)\<lparr>sbm_lru_priority := (next_lru_priority st + 1) mod 2 ^ 64\<rparr>],
                 next_lru_priority := (next_lru_priority st + 1) mod 2 ^ 64\<rparr>) \<and>
           (nat (sbm_length (g_side_buffer_metadata st ! b)) \<le> length (g_side_buffer_data st ! b) \<longrightarrow>
              length (take len (drop (nat (off - sbm_offset_within_entry (g_side_buffer_metadata st ! b)))
                          (g_side_buffer_data st ! b))) = len) \<and>
           ((\<forall>j<NUM_SIDE_BUFFERS. sbm_lru_priority (g_side_buffer_metadata st ! j) \<le> next_lru_priority st) \<and>
             next_lru_priority st < UINT64_MAX \<longrightarrow>
              (\<forall>j<NUM_SIDE_BUFFERS. sbm_lru_priority (g_side_buffer_metadata st ! j)
                  < (next_lru_priority st + 1) mod 2 ^ 64))))"
proof -
  let ?metas = "g_side_buffer_metadata st"
  let ?p = "(next_lru_priority st + 1) mod 2 ^ 64"
  have c1: "contains m idx off len \<longleftrightarrow>
        (sbm_index_within_archive m = idx \<and> sbm_offset_within_entry m \<le> off \<and>
         sbm_length m - (off - sbm_offset_within_entry m) \<ge> int len)"
    using idx by (rule contains_iff)
  have c2: "sbm_index_within_archive m = - 1 \<longrightarrow> \<not> contains m idx off len"
    by (simp add: contains_empty)
  have c3: "(\<forall>j<NUM_SIDE_BUFFERS. \<not> contains (?metas ! j) idx off len) \<longrightarrow>
        read_from_side_buffer idx len off st = (False, [], st)"
    by (simp add: read_from_side_buffer_miss)
  have fresh: "next_lru_priority st < UINT64_MAX \<Longrightarrow> ?p = next_lru_priority st + 1"
    by (simp add: UINT64_MAX_def)
  have c4: "\<exists>b<NUM_SIDE_BUFFERS.
           contains (?metas ! b) idx off len \<and>
           (\<forall>j<NUM_SIDE_BUFFERS. contains (?metas ! j) idx off len \<longrightarrow>
              sbm_length (?metas ! j) \<le> sbm_length (?metas ! b)) \<and>
           read_from_side_buffer idx len off st =
             (True,
              take len (drop (nat (off - sbm_offset_within_entry (?metas ! b)))
                          (g_side_buffer_data st ! b)),
              st\<lparr>g_side_buffer_metadata := ?metas[b := (?metas ! b)\<lparr>sbm_lru_priority := ?p\<rparr>],
                 next_lru_priority := ?p\<rparr>) \<and>
           (nat (sbm_length (?metas ! b)) \<le> length (g_side_buffer_data st ! b) \<longrightarrow>
              length (take len (drop (nat (off - sbm_offset_within_entry (?metas ! b)))
                          (g_side_buffer_data st ! b))) = len) \<and>
           ((\<forall>j<NUM_SIDE_BUFFERS. sbm_lru_priority (?metas ! j) \<le> next_lru_priority st) \<and>
             next_lru_priority st < UINT64_MAX \<longrightarrow>
              (\<forall>j<NUM_SIDE_BUFFERS. sbm_lru_priority (?metas ! j) < ?p))"
    if ex: "\<exists>j<NUM_SIDE_BUFFERS. contains (?metas ! j) idx off len"
  proof -
    from read_from_side_buffer_hit [OF ex] obtain b where b: "b < NUM_SIDE_BUFFERS"
      "contains (?metas ! b) idx off len"
      "\<forall>j<NUM_SIDE_BUFFERS. contains (?metas ! j) idx off len \<longrightarrow>
              sbm_length (?metas ! j) \<le> sbm_length (?metas ! b)"
      "read_from_side_buffer idx len off st =
             (True,
              take len (drop (nat (off - sbm_offset_within_entry (?metas ! b)))
                          (g_side_buffer_data st ! b)),
              st\<lparr>g_side_buffer_metadata := ?metas[b := (?metas ! b)\<lparr>sbm_lru_priority := ?p\<rparr>],
                 next_lru_priority := ?p\<rparr>)"
      by blast
    have len: "nat (sbm_length (?metas ! b)) \<le> length (g_side_buffer_data st ! b) \<longrightarrow>
              length (take len (drop (nat (off - sbm_offset_within_entry (?metas ! b)))
                          (g_side_buffer_data st ! b))) = len"
      using contains_copy_length [OF b(2)] by blast
    have top: "(\<forall>j<NUM_SIDE_BUFFERS. sbm_lru_priority (?metas ! j) \<le> next_lru_priority st) \<and>
             next_lru_priority st < UINT64_MAX \<longrightarrow>
              (\<forall>j<NUM_SIDE_BUFFERS. sbm_lru_priority (?metas ! j) < ?p)"
      using fresh by (auto simp: less_Suc_eq_le)
    from b len top show ?thesis by blast
  qed
  from c1 c2 c3 c4 show ?thesis by blast
qed

theorem read_from_side_buffer_lookup_witness:
  "(0::int) \<le> 3 \<and>
   contains (g_side_buffer_metadata example_globals ! 0) 3 10 4 \<and>
   contains (g_side_buffer_metadata example_globals ! 1) 3 10 4 \<and>
   read_from_side_buffer 3 4 10 example_globals =
     (True, [20, 21, 22, 23],
      example_globals\<lparr>g_side_buffer_metadata := (g_side_buffer_metadata example_globals)[1 :=
          \<lparr>sbm_index_within_archive = 3, sbm_offset_within_entry = 4,
           sbm_length = 12, sbm_lru_priority = 3\<rparr>],
        next_lru_priority := 3\<rparr>) \<and>
   read_from_side_buffer 3 4 14 example_globals = (False, [], example_globals)"
proof -
  have h: "(0::int) \<le> 3" by simp
  have c0: "contains (g_side_buffer_metadata example_globals ! 0) 3 10 4"
    using read_from_side_buffer_lookup [OF h, of "g_side_buffer_metadata example_globals ! 0" 10 4 example_globals, THEN conjunct1]
    by (simp add: example_globals_def)
  have c1: "contains (g_side_buffer_metadata example_globals ! 1) 3 10 4"
    using read_from_side_buffer_lookup [OF h, of "g_side_buffer_metadata example_globals ! 1" 10 4 example_globals, THEN conjunct1]
    by (simp add: example_globals_def)
  have hit: "read_from_side_buffer 3 4 10 example_globals =
     (True, [20, 21, 22, 23],
      example_globals\<lparr>g_side_buffer_metadata := (g_side_buffer_metadata example_globals)[1 :=
          \<lparr>sbm_index_within_archive = 3, sbm_offset_within_entry = 4,
           sbm_length = 12, sbm_lru_priority = 3\<rparr>],
        next_lru_priority := 3\<rparr>)"
    by (simp add: read_from_side_buffer_def read_from_side_buffer_step_def contains_def
        example_globals_def empty_metadata_def NUM_SIDE_BUFFERS_def Let_def upt_8)
  have none: "\<forall>j<NUM_SIDE_BUFFERS. \<not> contains (g_side_buffer_metadata example_globals ! j) 3 14 4"
    by (simp add: NUM_SIDE_BUFFERS_def all_less_8 contains_def example_globals_def empty_metadata_def)
  have miss: "read_from_side_buffer 3 4 14 example_globals = (False, [], example_globals)"
    using read_from_side_buffer_lookup [OF h, of empty_metadata 14 4 example_globals, THEN conjunct2, THEN conjunct2, THEN conjunct1] none
    by (rule mp)
  show ?thesis using h c0 c1 hit miss by simp
qed

subsection \<open>Advancing a Reader's offset\<close>

lemma acquire_side_buffer_step_fst:
  "fst (acquire_side_buffer_step metas n (i, l)) = i \<or>
   fst (acquire_side_buffer_step metas n (i, l)) = n"
  by (simp add: acquire_side_buffer_step_def)

lemma acquire_side_buffer_fold:
  "fst (fold (acquire_side_buffer_step metas) [1..<n] (0, x)) < max n 1"
proof (induction n)
  case 0
  show ?case by simp
next
  case (Suc n)
  show ?case
  proof (cases "1 \<le> n")
    case True
    obtain i l where acc: "fold (acquire_side_buffer_step metas) [1..<n] (0, x) = (i, l)"
      by (cases "fold (acquire_side_buffer_step metas) [1..<n] (0, x)")
    with Suc have i: "i < max n 1" by simp
    have e: "fst (fold (acquire_side_buffer_step metas) [1..<Suc n] (0, x)) =
          fst (acquire_side_buffer_step metas n (i, l))"
      using True acc by simp
    have "fst (acquire_side_buffer_step metas n (i, l)) < Suc n"
      using acquire_side_buffer_step_fst [of metas n i l] i True by auto
    then show ?thesis unfolding e by simp
  next
    case False
    then show ?thesis by simp
  qed
qed

lemma acquire_side_buffer_range:
  "acquire_side_buffer st = (sb, st1) \<Longrightarrow> 0 \<le> sb \<and> sb < int NUM_SIDE_BUFFERS"
  using acquire_side_buffer_fold [of "g_side_buffer_metadata st" NUM_SIDE_BUFFERS
      "sbm_lru_priority (g_side_buffer_metadata st ! 0)"]
  by (auto simp: acquire_side_buffer_def Let_def NUM_SIDE_BUFFERS_def)

lemma advance_offset_dst_len_bounds:
  "0 < d \<Longrightarrow> 0 < advance_offset_dst_len d \<and> advance_offset_dst_len d \<le> d \<and>
     advance_offset_dst_len d \<le> SIDE_BUFFER_SIZE"
proof -
  assume d: "0 < d"
  have L: "0 < SIDE_BUFFER_SIZE" by (simp add: SIDE_BUFFER_SIZE_def)
  then have "0 \<le> d mod SIDE_BUFFER_SIZE" "d mod SIDE_BUFFER_SIZE < SIDE_BUFFER_SIZE"
    by simp_all
  with d L show ?thesis
    unfolding advance_offset_dst_len_def Let_def by auto
qed


lemma archive_read_data_eq:
  "archive_read_data a len =
     (case reads a of [] \<Rightarrow> Data [] | f # fs \<Rightarrow> f len,
      a\<lparr>reads := tl (reads a), asked := asked a @ [len]\<rparr>)"
  by (cases "reads a") (simp_all add: archive_read_data_def)

lemma reader_read_cases:
  assumes "reader_read this dst_len pathname = Returns (n, bs, this')"
  shows "(\<exists>a x. archive this = Some a \<and>
           x = (case reads a of [] \<Rightarrow> Data [] | f # fs \<Rightarrow> f dst_len) \<and>
           archive this' = Some (a\<lparr>reads := tl (reads a), asked := asked a @ [dst_len]\<rparr>) \<and>
           ((x = ReadError \<and> n = - EIO \<and> bs = [] \<and> offset_within_entry this' = offset_within_entry this) \<or>
            (x = Data bs \<and> n = int (length bs) \<and> length bs \<le> dst_len \<and>
             offset_within_entry this' = offset_within_entry this + int (length bs)))) \<and>
         index_within_archive this' = index_within_archive this \<and>
         archive_entry this' = archive_entry this"
  using assms
  by (auto simp: reader_read_def archive_read_data_eq
           split: option.splits read_result.splits if_splits)

lemma advance_offset_loop_returns:
  assumes "advance_offset_loop want p sb this st = Returns (ok, this', st')"
  shows "index_within_archive this' = index_within_archive this \<and>
         archive_entry this' = archive_entry this \<and>
         offset_within_entry this \<le> offset_within_entry this' \<and>
         (ok \<longrightarrow> offset_within_entry this' = max want (offset_within_entry this)) \<and>
         (\<not> ok \<and> sb < length (g_side_buffer_metadata st) \<longrightarrow>
            g_side_buffer_metadata st' ! sb = empty_metadata) \<and>
         length (g_side_buffer_metadata st') = length (g_side_buffer_metadata st) \<and>
         (\<forall>j. j \<noteq> sb \<longrightarrow> g_side_buffer_metadata st' ! j = g_side_buffer_metadata st ! j) \<and>
         g_saved_readers st' = g_saved_readers st \<and>
         g_nodes_by_name st' = g_nodes_by_name st \<and>
         g_nodes_by_index st' = g_nodes_by_index st"
  using assms
proof (induction want p sb this st arbitrary: ok this' st' rule: advance_offset_loop.induct)
  case (1 want pathname sb this st)
  show ?case
  proof (cases "want > offset_within_entry this")
    case False
    with "1.prems" show ?thesis
      by (simp add: advance_offset_loop.simps [of want pathname sb this st])
  next
    case True
    let ?d = "advance_offset_dst_len (want - offset_within_entry this)"
    from True have d: "0 < ?d" "?d \<le> want - offset_within_entry this"
      using advance_offset_dst_len_bounds [of "want - offset_within_entry this"] by auto
    from "1.prems"(1) True obtain n bs this1 where
      rd: "reader_read this (nat ?d) pathname = Returns (n, bs, this1)"
      by (auto simp: advance_offset_loop.simps [of want pathname sb this st] Let_def
               split: outcome.splits)
    note rc = reader_read_cases [OF rd]
    show ?thesis
    proof (cases "n < 0")
      case True
      with "1.prems" \<open>want > offset_within_entry this\<close> rd rc show ?thesis
        by (auto simp: advance_offset_loop.simps [of want pathname sb this st] Let_def
              empty_metadata_def EIO_def)
    next
      case False
      let ?p = "(next_lru_priority st + 1) mod 2 ^ 64"
      let ?st1 = "st\<lparr>g_side_buffer_data := (g_side_buffer_data st)[sb :=
                                       bs @ drop (length bs) (g_side_buffer_data st ! sb)],
                                     g_side_buffer_metadata := (g_side_buffer_metadata st)[sb :=
                                       \<lparr>sbm_index_within_archive = index_within_archive this1,
                                        sbm_offset_within_entry = offset_within_entry this,
                                        sbm_length = n, sbm_lru_priority = ?p\<rparr>],
                                     next_lru_priority := ?p\<rparr>"
      from "1.prems" \<open>want > offset_within_entry this\<close> rd False
      have nh: "\<not> (n = 0 \<and> (case archive this of None \<Rightarrow> True | Some a \<Rightarrow> reads a = []))"
        and rec: "advance_offset_loop want pathname sb this1 ?st1 = Returns (ok, this', st')"
        by (auto simp: advance_offset_loop.simps [of want pathname sb this st] Let_def
               split: if_splits)
      have ih: "index_within_archive this' = index_within_archive this1 \<and>
         archive_entry this' = archive_entry this1 \<and>
         offset_within_entry this1 \<le> offset_within_entry this' \<and>
         (ok \<longrightarrow> offset_within_entry this' = max want (offset_within_entry this1)) \<and>
         (\<not> ok \<and> sb < length (g_side_buffer_metadata ?st1) \<longrightarrow>
            g_side_buffer_metadata st' ! sb = empty_metadata) \<and>
         length (g_side_buffer_metadata st') = length (g_side_buffer_metadata ?st1) \<and>
         (\<forall>j. j \<noteq> sb \<longrightarrow> g_side_buffer_metadata st' ! j = g_side_buffer_metadata ?st1 ! j) \<and>
         g_saved_readers st' = g_saved_readers ?st1 \<and>
         g_nodes_by_name st' = g_nodes_by_name ?st1 \<and>
         g_nodes_by_index st' = g_nodes_by_index ?st1"
        using "1.IH" [OF \<open>want > offset_within_entry this\<close> refl refl rd refl refl False refl refl nh rec]
        by simp
      from rc False d have o1: "offset_within_entry this \<le> offset_within_entry this1"
        "offset_within_entry this1 \<le> want"
        by (auto simp: EIO_def)
      show ?thesis using ih rc o1 by auto
    qed
  qed
qed

























subsection \<open>A Reader's state only advances\<close>

lemma advance_index_loop_monotone:
  assumes "advance_index_loop want this = (ok, this')"
  shows "index_within_archive this \<le> index_within_archive this' \<and>
         (index_within_archive this' = index_within_archive this \<longrightarrow>
            offset_within_entry this' = offset_within_entry this) \<and>
         (index_within_archive this < index_within_archive this' \<longrightarrow>
            offset_within_entry this' = 0) \<and>
         (ok \<longrightarrow> want \<le> index_within_archive this' \<and>
                 (index_within_archive this \<le> want \<longrightarrow> index_within_archive this' = want))"
  using assms
proof (induction want this arbitrary: ok this' rule: advance_index_loop.induct)
  case (1 want this)
  show ?case
  proof (cases "index_within_archive this < want")
    case False
    with "1.prems" show ?thesis
      by (simp add: advance_index_loop.simps [of want this])
  next
    case True
    show ?thesis
    proof (cases "archive this")
      case None
      with True "1.prems" show ?thesis
        by (simp add: advance_index_loop.simps [of want this])
    next
      case (Some a)
      obtain status e a' where h: "archive_read_next_header a = (status, e, a')"
        by (cases "archive_read_next_header a")
      show ?thesis
      proof (cases "status = ARCHIVE_EOF \<or> (status \<noteq> ARCHIVE_OK \<and> status \<noteq> ARCHIVE_WARN)")
        case True
        with \<open>index_within_archive this < want\<close> Some h "1.prems" show ?thesis
          by (auto simp: advance_index_loop.simps [of want this] split: if_splits)
      next
        case False
        let ?next = "this\<lparr>archive := Some a', archive_entry := e,
                               index_within_archive := index_within_archive this + 1,
                               offset_within_entry := 0\<rparr>"
        from False \<open>index_within_archive this < want\<close> Some h "1.prems"
        have rec: "advance_index_loop want ?next = (ok, this')"
          by (auto simp: advance_index_loop.simps [of want this] split: if_splits)
        from False have c: "status \<noteq> ARCHIVE_EOF" "\<not> (status \<noteq> ARCHIVE_OK \<and> status \<noteq> ARCHIVE_WARN)"
          by auto
        from "1.IH" [OF \<open>index_within_archive this < want\<close> Some h [symmetric] refl c rec]
          \<open>index_within_archive this < want\<close>
        show ?thesis by auto
      qed
    qed
  qed
qed

lemma advance_index_monotone:
  assumes "advance_index want this = (ok, this')"
  shows "index_within_archive this \<le> index_within_archive this' \<and>
         (index_within_archive this' = index_within_archive this \<longrightarrow>
            offset_within_entry this' = offset_within_entry this) \<and>
         (index_within_archive this < index_within_archive this' \<longrightarrow>
            offset_within_entry this' = 0) \<and>
         (ok \<longrightarrow> want \<le> index_within_archive this' \<and>
                 (index_within_archive this \<le> want \<longrightarrow> index_within_archive this' = want))"
proof (cases "archive this")
  case None
  with assms show ?thesis by (simp add: advance_index_def)
next
  case (Some a)
  with assms have "advance_index_loop want this = (ok, this')"
    by (simp add: advance_index_def)
  then show ?thesis by (rule advance_index_loop_monotone)
qed


lemma apply_op_monotone:
  assumes "apply_op x (this, st) = Returns (this', st')"
  shows "index_within_archive this \<le> index_within_archive this' \<and>
         (index_within_archive this' = index_within_archive this \<longrightarrow>
            offset_within_entry this \<le> offset_within_entry this') \<and>
         (index_within_archive this < index_within_archive this' \<longrightarrow>
            offset_within_entry this' = 0)"
proof (cases x)
  case (Advance_index want)
  obtain ok r where a: "advance_index want this = (ok, r)"
    by (cases "advance_index want this")
  with assms Advance_index have "r = this'" by simp
  with advance_index_monotone [OF a] show ?thesis by simp
next
  case (Advance_offset want pathname)
  with assms obtain ok where a: "advance_offset want pathname this st = Returns (ok, this', st')"
    by (auto split: outcome.splits)
  show ?thesis
  proof (cases "archive this = None \<or> archive_entry this = None \<or> want \<le> offset_within_entry this")
    case True
    with a show ?thesis by (auto simp: advance_offset_def split: if_splits)
  next
    case False
    obtain sb st1 where acq: "acquire_side_buffer st = (sb, st1)"
      by (cases "acquire_side_buffer st")
    from acquire_side_buffer_range [OF acq] False a acq
    have l: "advance_offset_loop want pathname (nat sb) this st1 = Returns (ok, this', st')"
      by (auto simp: advance_offset_def split: if_splits)
    from advance_offset_loop_returns [OF l] show ?thesis by simp
  qed
next
  case (Read dst_len pathname)
  with assms obtain n bs where "reader_read this dst_len pathname = Returns (n, bs, this')"
    by (auto split: outcome.splits)
  from reader_read_cases [OF this] show ?thesis by auto
qed


lemma pair_le_refl: "pair_le x x"
  by (simp add: pair_le_def pair_lt_def)

lemma pair_le_trans: "pair_le x y \<Longrightarrow> pair_le y z \<Longrightarrow> pair_le x z"
  by (auto simp: pair_le_def pair_lt_def)

lemma run_ops_monotone:
  "run_ops xs (this, st) = Returns (this', st') \<Longrightarrow>
     pair_le (index_within_archive this, offset_within_entry this)
             (index_within_archive this', offset_within_entry this')"
proof (induction xs arbitrary: this st)
  case Nil
  then show ?case by (simp add: pair_le_refl)
next
  case (Cons x xs)
  then obtain this1 st1 where s: "apply_op x (this, st) = Returns (this1, st1)"
    and r: "run_ops xs (this1, st1) = Returns (this', st')"
    by (auto split: outcome.splits)
  from apply_op_monotone [OF s]
  have "pair_le (index_within_archive this, offset_within_entry this)
             (index_within_archive this1, offset_within_entry this1)"
    by (auto simp: pair_le_def pair_lt_def)
  with Cons.IH [OF r] show ?case by (rule pair_le_trans [rotated])
qed

text \<open>
  C8. No operation on a Reader moves its state backward. For each of \<open>advance_index\<close>,
  \<open>advance_offset\<close> and \<open>read\<close> that returns, on any Reader and whatever the library
  answers: the index does not decrease; while the index is unchanged the offset does not
  decrease; and when the index advances the offset is 0. Hence over any sequence of these
  operations the index is non-decreasing and the state \<open>(index, offset)\<close> is
  non-decreasing in the lexicographic order. \<open>swap\<close> is the operation that can move a
  Reader's state backward: it installs the other Reader's state.
\<close>

theorem reader_state_only_advances:
  "(apply_op x (this, st) = Returns (this1, st1) \<longrightarrow>
      index_within_archive this \<le> index_within_archive this1 \<and>
      (index_within_archive this1 = index_within_archive this \<longrightarrow>
         offset_within_entry this \<le> offset_within_entry this1) \<and>
      (index_within_archive this < index_within_archive this1 \<longrightarrow>
         offset_within_entry this1 = 0)) \<and>
   (run_ops xs (this, st) = Returns (this2, st2) \<longrightarrow>
      index_within_archive this \<le> index_within_archive this2 \<and>
      pair_le (index_within_archive this, offset_within_entry this)
              (index_within_archive this2, offset_within_entry this2)) \<and>
   (index_within_archive (fst (swap this other)) = index_within_archive other \<and>
    offset_within_entry (fst (swap this other)) = offset_within_entry other \<and>
    index_within_archive (snd (swap this other)) = index_within_archive this \<and>
    offset_within_entry (snd (swap this other)) = offset_within_entry this)"
proof -
  have "run_ops xs (this, st) = Returns (this2, st2) \<Longrightarrow>
      index_within_archive this \<le> index_within_archive this2 \<and>
      pair_le (index_within_archive this, offset_within_entry this)
              (index_within_archive this2, offset_within_entry this2)"
    using run_ops_monotone [of xs this st this2 st2]
    by (auto simp: pair_le_def pair_lt_def)
  then show ?thesis
    using apply_op_monotone [of x this st this1 st1] by (simp add: swap_def)
qed


theorem reader_state_only_advances_witness:
  "apply_op (Advance_index 5) (example_reader, example_globals) =
     Returns (example_reader\<lparr>archive := Some (example_archive\<lparr>headers := []\<rparr>),
                index_within_archive := 5, offset_within_entry := 0\<rparr>, example_globals) \<and>
   index_within_archive example_reader \<le> 5 \<and>
   run_ops [Read 1 ''/docs/a.txt'', Advance_index 4, Read 131072 ''/docs/b.txt'']
      (example_reader, example_globals) =
     Returns (example_reader\<lparr>archive := Some (example_archive\<lparr>
                  headers := [(ARCHIVE_WARN, Some example_entry)], reads := [\<lambda>n. Data [9]],
                  asked := [1, 131072]\<rparr>),
                index_within_archive := 4, offset_within_entry := 131072\<rparr>, example_globals) \<and>
   pair_le (index_within_archive example_reader, offset_within_entry example_reader) (4, 131072)"
proof -
  let ?r1 = "example_reader\<lparr>archive := Some (example_archive\<lparr>headers := []\<rparr>),
                index_within_archive := 5, offset_within_entry := 0\<rparr>"
  let ?r2 = "example_reader\<lparr>archive := Some (example_archive\<lparr>
                  headers := [(ARCHIVE_WARN, Some example_entry)], reads := [\<lambda>n. Data [9]],
                  asked := [1, 131072]\<rparr>),
                index_within_archive := 4, offset_within_entry := 131072\<rparr>"
  let ?ops = "[Read 1 ''/docs/a.txt'', Advance_index 4, Read 131072 ''/docs/b.txt'']"
  have one: "apply_op (Advance_index 5) (example_reader, example_globals) =
     Returns (?r1, example_globals)"
    by (simp add: advance_index_def advance_index_loop.simps archive_read_next_header_def
        example_reader_def example_archive_def ARCHIVE_OK_def ARCHIVE_WARN_def ARCHIVE_EOF_def)
  have run: "run_ops ?ops (example_reader, example_globals) = Returns (?r2, example_globals)"
    by (simp add: reader_read_def archive_read_data_def
        advance_index_def advance_index_loop.simps archive_read_next_header_def
        example_reader_def example_archive_def ARCHIVE_OK_def ARCHIVE_WARN_def ARCHIVE_EOF_def)
  note inst = reader_state_only_advances [of "Advance_index 5" example_reader example_globals
      ?r1 example_globals ?ops ?r2 example_globals example_reader]
  from inst [THEN conjunct1, rule_format, OF one]
  have a: "index_within_archive example_reader \<le> 5" by simp
  from inst [THEN conjunct2, THEN conjunct1, rule_format, OF run]
  have b: "pair_le (index_within_archive example_reader, offset_within_entry example_reader)
             (4, 131072)" by simp
  show ?thesis using one a run b by simp
qed

subsection \<open>Acquiring a Reader from the cache\<close>

lemma pair_lt_irrefl: "\<not> pair_lt x x"
  by (simp add: pair_lt_def)

lemma acquire_reader_fold:
  assumes "fold (acquire_reader_step saved want) [0..<n] (- 1, - 1, - 1) = (best_i, bi, bo)"
      and "\<forall>j<n. \<forall>r. fst (saved ! j) = Some r \<longrightarrow>
              pair_lt (- 1, - 1) (index_within_archive r, offset_within_entry r)"
  shows "(best_i = - 1 \<and> bi = - 1 \<and> bo = - 1 \<and>
           (\<forall>j<n. \<forall>r. fst (saved ! j) = Some r \<longrightarrow>
              \<not> pair_le (index_within_archive r, offset_within_entry r) (want, 0))) \<or>
         (0 \<le> best_i \<and> nat best_i < n \<and>
           (\<exists>r. fst (saved ! nat best_i) = Some r \<and>
              bi = index_within_archive r \<and> bo = offset_within_entry r \<and>
              pair_le (index_within_archive r, offset_within_entry r) (want, 0)) \<and>
           (\<forall>j<n. \<forall>r. fst (saved ! j) = Some r \<and>
                pair_le (index_within_archive r, offset_within_entry r) (want, 0) \<longrightarrow>
              pair_le (index_within_archive r, offset_within_entry r) (bi, bo)))"
  using assms
proof (induction n arbitrary: best_i bi bo)
  case 0
  then show ?case by simp
next
  case (Suc n)
  obtain i0 bi0 bo0 where acc:
    "fold (acquire_reader_step saved want) [0..<n] (- 1, - 1, - 1) = (i0, bi0, bo0)"
    by (cases "fold (acquire_reader_step saved want) [0..<n] (- 1, - 1, - 1)") auto
  have step: "acquire_reader_step saved want n (i0, bi0, bo0) = (best_i, bi, bo)"
    using Suc.prems(1) acc by simp
  from Suc.prems(2) have pre: "\<forall>j<n. \<forall>r. fst (saved ! j) = Some r \<longrightarrow>
              pair_lt (- 1, - 1) (index_within_archive r, offset_within_entry r)"
    by (meson less_SucI)
  note ih = Suc.IH [OF acc pre]
  show ?case
  proof (cases "fst (saved ! n)")
    case None
    with step have "(best_i, bi, bo) = (i0, bi0, bo0)"
      by (simp add: acquire_reader_step_def)
    with ih None show ?thesis
      by (auto simp: less_Suc_eq)
  next
    case (Some sri)
    from Suc.prems(2) Some
    have pos: "pair_lt (- 1, - 1) (index_within_archive sri, offset_within_entry sri)"
      by (meson lessI)
    show ?thesis
    proof (cases "pair_lt (bi0, bo0) (index_within_archive sri, offset_within_entry sri) \<and>
               pair_le (index_within_archive sri, offset_within_entry sri) (want, 0)")
      case True
      with step Some have e: "best_i = int n" "bi = index_within_archive sri"
        "bo = offset_within_entry sri"
        by (simp_all add: acquire_reader_step_def)
      from ih True Some e show ?thesis
        by (auto simp: less_Suc_eq pair_le_def pair_lt_def)
    next
      case False
      with step Some have e: "(best_i, bi, bo) = (i0, bi0, bo0)"
        by (simp add: acquire_reader_step_def)
      from ih False Some e pos show ?thesis
        by (auto simp: less_Suc_eq pair_le_def pair_lt_def)
    qed
  qed
qed


text \<open>
  C1. \<open>acquire_reader\<close>, for a cache whose Readers have states as Readers have them
  (index at least \<open>-1\<close>, offset at least 0):
  \<^item> a negative target gives no Reader;
  \<^item> for a target \<open>want \<ge> 0\<close>, when some cached Reader has
    \<open>(index, offset) \<le> (want, 0)\<close> lexicographically, a cached Reader whose state is the
    greatest such is taken out of the cache (its slot becomes empty with priority 0) and
    \<open>advance_index want\<close> is run on it;
  \<^item> when no cached Reader qualifies, a fresh stream is opened and \<open>advance_index want\<close>
    is run on the new Reader, the cache staying as it was;
  \<^item> when the open or the advance fails, no Reader is returned.
\<close>

theorem acquire_reader_selection:
  assumes inv: "\<forall>j<NUM_SAVED_READERS. \<forall>r. fst (g_saved_readers st ! j) = Some r \<longrightarrow>
                  - 1 \<le> index_within_archive r \<and> 0 \<le> offset_within_entry r"
  shows
    "(want < 0 \<longrightarrow> acquire_reader opened want st = (None, st)) \<and>
     (0 \<le> want \<and>
      (\<exists>j<NUM_SAVED_READERS. \<exists>r. fst (g_saved_readers st ! j) = Some r \<and>
          pair_le (index_within_archive r, offset_within_entry r) (want, 0)) \<longrightarrow>
        (\<exists>b<NUM_SAVED_READERS. \<exists>r.
           fst (g_saved_readers st ! b) = Some r \<and>
           pair_le (index_within_archive r, offset_within_entry r) (want, 0) \<and>
           (\<forall>j<NUM_SAVED_READERS. \<forall>r'. fst (g_saved_readers st ! j) = Some r' \<and>
                pair_le (index_within_archive r', offset_within_entry r') (want, 0) \<longrightarrow>
              pair_le (index_within_archive r', offset_within_entry r')
                      (index_within_archive r, offset_within_entry r)) \<and>
           acquire_reader opened want st =
             (if fst (advance_index want r) then Some (snd (advance_index want r)) else None,
              st\<lparr>g_saved_readers := (g_saved_readers st)[b := (None, 0)]\<rparr>))) \<and>
     (0 \<le> want \<and>
      \<not> (\<exists>j<NUM_SAVED_READERS. \<exists>r. fst (g_saved_readers st ! j) = Some r \<and>
          pair_le (index_within_archive r, offset_within_entry r) (want, 0)) \<longrightarrow>
        acquire_reader opened want st =
          (case opened of
             None \<Rightarrow> None
           | Some a \<Rightarrow>
               if fst (advance_index want (new_Reader a))
               then Some (snd (advance_index want (new_Reader a))) else None,
           st))"
proof -
  let ?saved = "g_saved_readers st"
  obtain best_i bi bo where acc:
    "fold (acquire_reader_step ?saved want) [0..<NUM_SAVED_READERS] (- 1, - 1, - 1) = (best_i, bi, bo)"
    by (cases "fold (acquire_reader_step ?saved want) [0..<NUM_SAVED_READERS] (- 1, - 1, - 1)") auto
  from inv have pos: "\<forall>j<NUM_SAVED_READERS. \<forall>r. fst (?saved ! j) = Some r \<longrightarrow>
              pair_lt (- 1, - 1) (index_within_archive r, offset_within_entry r)"
    by (auto simp: pair_lt_def)
  note f = acquire_reader_fold [OF acc pos]
  have neg: "want < 0 \<Longrightarrow> acquire_reader opened want st = (None, st)"
    by (simp add: acquire_reader_def)
  have hit: "\<exists>b<NUM_SAVED_READERS. \<exists>r.
           fst (?saved ! b) = Some r \<and>
           pair_le (index_within_archive r, offset_within_entry r) (want, 0) \<and>
           (\<forall>j<NUM_SAVED_READERS. \<forall>r'. fst (?saved ! j) = Some r' \<and>
                pair_le (index_within_archive r', offset_within_entry r') (want, 0) \<longrightarrow>
              pair_le (index_within_archive r', offset_within_entry r')
                      (index_within_archive r, offset_within_entry r)) \<and>
           acquire_reader opened want st =
             (if fst (advance_index want r) then Some (snd (advance_index want r)) else None,
              st\<lparr>g_saved_readers := ?saved[b := (None, 0)]\<rparr>)"
    if w: "0 \<le> want" and ex: "\<exists>j<NUM_SAVED_READERS. \<exists>r. fst (?saved ! j) = Some r \<and>
          pair_le (index_within_archive r, offset_within_entry r) (want, 0)"
  proof -
    from f ex obtain r where b: "0 \<le> best_i" "nat best_i < NUM_SAVED_READERS"
      "fst (?saved ! nat best_i) = Some r"
      "bi = index_within_archive r" "bo = offset_within_entry r"
      "pair_le (index_within_archive r, offset_within_entry r) (want, 0)"
      and best: "\<forall>j<NUM_SAVED_READERS. \<forall>r. fst (?saved ! j) = Some r \<and>
                pair_le (index_within_archive r, offset_within_entry r) (want, 0) \<longrightarrow>
              pair_le (index_within_archive r, offset_within_entry r) (bi, bo)"
      by auto
    have run: "acquire_reader opened want st =
             (if fst (advance_index want r) then Some (snd (advance_index want r)) else None,
              st\<lparr>g_saved_readers := ?saved[nat best_i := (None, 0)]\<rparr>)"
      using w b(1,3) acc
      by (simp add: acquire_reader_def Let_def split: prod.splits)
    show ?thesis
      using b best run by (intro exI [of _ "nat best_i"] exI [of _ r]) simp
  qed
  have miss: "acquire_reader opened want st =
          (case opened of
             None \<Rightarrow> None
           | Some a \<Rightarrow>
               if fst (advance_index want (new_Reader a))
               then Some (snd (advance_index want (new_Reader a))) else None,
           st)"
    if w: "0 \<le> want" and nex: "\<not> (\<exists>j<NUM_SAVED_READERS. \<exists>r. fst (?saved ! j) = Some r \<and>
          pair_le (index_within_archive r, offset_within_entry r) (want, 0))"
  proof -
    from f nex have "best_i = - 1" by auto
    with w acc show ?thesis
      by (simp add: acquire_reader_def Let_def split: prod.splits option.splits)
  qed
  show ?thesis using neg hit miss by blast
qed

theorem acquire_reader_selection_witness:
  "acquire_reader None (- 1) example_cache = (None, example_cache) \<and>
   acquire_reader None 4 example_cache =
     (Some (example_reader\<lparr>archive := Some (example_archive\<lparr>headers :=
                [(ARCHIVE_WARN, Some example_entry)]\<rparr>),
              index_within_archive := 4, offset_within_entry := 0\<rparr>),
      example_cache\<lparr>g_saved_readers := (g_saved_readers example_cache)[1 := (None, 0)]\<rparr>) \<and>
   acquire_reader (Some example_archive) 1 example_cache =
     (Some \<lparr>archive = Some (example_archive\<lparr>headers := []\<rparr>),
            archive_entry = Some example_entry,
            index_within_archive = 1, offset_within_entry = 0\<rparr>,
      example_cache) \<and>
   acquire_reader None 1 example_cache = (None, example_cache)"
proof -
  have inv: "\<forall>j<NUM_SAVED_READERS. \<forall>r. fst (g_saved_readers example_cache ! j) = Some r \<longrightarrow>
                  - 1 \<le> index_within_archive r \<and> 0 \<le> offset_within_entry r"
    by (simp add: NUM_SAVED_READERS_def all_less_8 example_cache_def example_reader_def)
  note inst = acquire_reader_selection [OF inv]
  have neg: "acquire_reader None (- 1) example_cache = (None, example_cache)"
    using inst [of "- 1" None, THEN conjunct1] by simp
  have hit: "acquire_reader None 4 example_cache =
     (Some (example_reader\<lparr>archive := Some (example_archive\<lparr>headers :=
                [(ARCHIVE_WARN, Some example_entry)]\<rparr>),
              index_within_archive := 4, offset_within_entry := 0\<rparr>),
      example_cache\<lparr>g_saved_readers := (g_saved_readers example_cache)[1 := (None, 0)]\<rparr>)"
  proof -
    have saved: "g_saved_readers example_cache =
        [(Some (example_reader\<lparr>index_within_archive := 2, offset_within_entry := 7\<rparr>), 1),
         (Some (example_reader\<lparr>offset_within_entry := 0\<rparr>), 2),
         (None, 0), (None, 0), (None, 0), (None, 0), (None, 0), (None, 0)]"
      by (simp add: example_cache_def)
    have best: "fold (acquire_reader_step (g_saved_readers example_cache) 4)
        [0..<NUM_SAVED_READERS] (- 1, - 1, - 1) = (1, 3, 0)"
      by (simp add: saved acquire_reader_step_def NUM_SAVED_READERS_def upt_8
          pair_le_def pair_lt_def example_reader_simps)
    have adv: "advance_index 4 (example_reader\<lparr>offset_within_entry := 0\<rparr>) =
        (True, example_reader\<lparr>archive := Some (example_archive\<lparr>headers :=
                  [(ARCHIVE_WARN, Some example_entry)]\<rparr>),
                index_within_archive := 4, offset_within_entry := 0\<rparr>)"
      by (simp add: advance_index_def advance_index_loop.simps archive_read_next_header_def
          example_reader_simps example_archive_simps ARCHIVE_OK_def ARCHIVE_WARN_def ARCHIVE_EOF_def)
    show ?thesis
      by (simp add: acquire_reader_def Let_def best) (simp add: saved adv)
  qed
  have none: "0 \<le> (1::int) \<and>
      \<not> (\<exists>j<NUM_SAVED_READERS. \<exists>r. fst (g_saved_readers example_cache ! j) = Some r \<and>
          pair_le (index_within_archive r, offset_within_entry r) (1, 0))"
    by (simp add: NUM_SAVED_READERS_def all_less_8 example_cache_def example_reader_def
        pair_le_def pair_lt_def)
  have adv: "advance_index 1 (new_Reader example_archive) =
      (True, \<lparr>archive = Some (example_archive\<lparr>headers := []\<rparr>),
            archive_entry = Some example_entry,
            index_within_archive = 1, offset_within_entry = 0\<rparr>)"
    by (simp add: new_Reader_def example_archive_def
        advance_index_def advance_index_loop.simps archive_read_next_header_def
        ARCHIVE_OK_def ARCHIVE_WARN_def ARCHIVE_EOF_def)
  have fresh: "acquire_reader (Some example_archive) 1 example_cache =
     (Some \<lparr>archive = Some (example_archive\<lparr>headers := []\<rparr>),
            archive_entry = Some example_entry,
            index_within_archive = 1, offset_within_entry = 0\<rparr>,
      example_cache)"
    using inst [of 1 "Some example_archive", THEN conjunct2, THEN conjunct2, rule_format, OF none]
    by (simp add: adv)
  have fail: "acquire_reader None 1 example_cache = (None, example_cache)"
    using inst [of 1 None, THEN conjunct2, THEN conjunct2, rule_format, OF none]
    by simp
  show ?thesis using neg hit fresh fail by simp
qed

subsection \<open>The read callback\<close>

lemma read_from_side_buffer_frame:
  assumes "read_from_side_buffer idx len off st = (hit, bs, st')"
  shows "st' = st\<lparr>g_side_buffer_metadata := g_side_buffer_metadata st',
                   next_lru_priority := next_lru_priority st'\<rparr>"
  using assms by (auto simp: read_from_side_buffer_def Let_def split: if_splits)

text \<open>
  C4. A read with a negative offset, or with a length above \<open>INT_MAX\<close>, returns
  \<open>-EINVAL\<close>. Otherwise, on a handle whose Reader is live and whose index leads to a node of
  non-negative size, the length is clamped to \<open>node.size - offset\<close> (to nothing at or past
  the end): a request clamped to zero returns 0 and changes nothing; and when some side
  buffer covers \<open>(index, offset, clamped length)\<close>, the read returns the clamped length with
  the bytes of the side-buffer lookup, the Reader behind the handle is unchanged, and of the
  globals only the side buffers' priorities and the counter differ, so the library is not
  called. The bytes are as many as the clamped length when the buffers hold as many bytes
  as their metadata say.
\<close>

theorem my_read_side_buffer_path:
  "(offset < 0 \<or> dst_len > INT_MAX \<longrightarrow>
      my_read opened p dst_len offset fh st = Returns (- EINVAL, [], fh, st)) \<and>
   (0 \<le> offset \<and> dst_len \<le> INT_MAX \<and>
    fh = Some r \<and> archive r \<noteq> None \<and> archive_entry r \<noteq> None \<and>
    nat (index_within_archive r mod 2 ^ 64) < length (g_nodes_by_index st) \<and>
    g_nodes_by_index st ! nat (index_within_archive r mod 2 ^ 64) = Some k \<and>
    g_nodes_by_name st k = Some n \<and> 0 \<le> node_size n \<longrightarrow>
      (min dst_len (nat (node_size n - offset)) = 0 \<longrightarrow>
         my_read opened p dst_len offset fh st = Returns (0, [], fh, st)) \<and>
      (min dst_len (nat (node_size n - offset)) \<noteq> 0 \<and>
       (\<exists>j<NUM_SIDE_BUFFERS. contains (g_side_buffer_metadata st ! j) (index_within_archive r)
            offset (min dst_len (nat (node_size n - offset)))) \<longrightarrow>
         (\<exists>bs st'.
            my_read opened p dst_len offset fh st =
              Returns (int (min dst_len (nat (node_size n - offset))), bs, fh, st') \<and>
            read_from_side_buffer (index_within_archive r)
              (min dst_len (nat (node_size n - offset))) offset st = (True, bs, st') \<and>
            st' = st\<lparr>g_side_buffer_metadata := g_side_buffer_metadata st',
                      next_lru_priority := next_lru_priority st'\<rparr> \<and>
            ((\<forall>j<NUM_SIDE_BUFFERS. nat (sbm_length (g_side_buffer_metadata st ! j))
                  \<le> length (g_side_buffer_data st ! j)) \<longrightarrow>
               length bs = min dst_len (nat (node_size n - offset))))))"
proof (intro conjI impI)
  assume "offset < 0 \<or> dst_len > INT_MAX"
  then show "my_read opened p dst_len offset fh st = Returns (- EINVAL, [], fh, st)"
    by (auto simp: my_read_def)
next
  assume h: "0 \<le> offset \<and> dst_len \<le> INT_MAX \<and>
    fh = Some r \<and> archive r \<noteq> None \<and> archive_entry r \<noteq> None \<and>
    nat (index_within_archive r mod 2 ^ 64) < length (g_nodes_by_index st) \<and>
    g_nodes_by_index st ! nat (index_within_archive r mod 2 ^ 64) = Some k \<and>
    g_nodes_by_name st k = Some n \<and> 0 \<le> node_size n"
  assume "min dst_len (nat (node_size n - offset)) = 0"
  with h show "my_read opened p dst_len offset fh st = Returns (0, [], fh, st)"
    by (auto simp: my_read_def Let_def min_def split: if_splits)
next
  define c where "c = min dst_len (nat (node_size n - offset))"
  assume h: "0 \<le> offset \<and> dst_len \<le> INT_MAX \<and>
    fh = Some r \<and> archive r \<noteq> None \<and> archive_entry r \<noteq> None \<and>
    nat (index_within_archive r mod 2 ^ 64) < length (g_nodes_by_index st) \<and>
    g_nodes_by_index st ! nat (index_within_archive r mod 2 ^ 64) = Some k \<and>
    g_nodes_by_name st k = Some n \<and> 0 \<le> node_size n"
  assume "min dst_len (nat (node_size n - offset)) \<noteq> 0 \<and>
       (\<exists>j<NUM_SIDE_BUFFERS. contains (g_side_buffer_metadata st ! j) (index_within_archive r) offset
          (min dst_len (nat (node_size n - offset))))"
  then have c: "c \<noteq> 0"
    "\<exists>j<NUM_SIDE_BUFFERS. contains (g_side_buffer_metadata st ! j) (index_within_archive r) offset c"
    by (simp_all add: c_def)
  from read_from_side_buffer_hit [OF c(2)]
  obtain b where b: "b < NUM_SIDE_BUFFERS"
    "contains (g_side_buffer_metadata st ! b) (index_within_archive r) offset c"
    and run: "read_from_side_buffer (index_within_archive r) c offset st =
      (True,
       take c (drop (nat (offset - sbm_offset_within_entry (g_side_buffer_metadata st ! b)))
                          (g_side_buffer_data st ! b)),
       st\<lparr>g_side_buffer_metadata := (g_side_buffer_metadata st)[b :=
                    (g_side_buffer_metadata st ! b)\<lparr>sbm_lru_priority := (next_lru_priority st + 1) mod 2 ^ 64\<rparr>],
          next_lru_priority := (next_lru_priority st + 1) mod 2 ^ 64\<rparr>)"
    by blast
  let ?bs = "take c (drop (nat (offset - sbm_offset_within_entry (g_side_buffer_metadata st ! b)))
                          (g_side_buffer_data st ! b))"
  let ?st' = "st\<lparr>g_side_buffer_metadata := (g_side_buffer_metadata st)[b :=
                    (g_side_buffer_metadata st ! b)\<lparr>sbm_lru_priority := (next_lru_priority st + 1) mod 2 ^ 64\<rparr>],
          next_lru_priority := (next_lru_priority st + 1) mod 2 ^ 64\<rparr>"
  have size: "\<not> node_size n \<le> offset" "\<not> node_size n < 0"
    using c(1) h by (auto simp: c_def)
  have clamp: "(if dst_len > nat (node_size n - offset) then nat (node_size n - offset) else dst_len) = c"
    by (simp add: min_def c_def)
  from h obtain a e where live: "archive r = Some a" "archive_entry r = Some e"
    by auto
  from h have args: "\<not> (offset < 0 \<or> dst_len > INT_MAX)" "fh = Some r"
    "\<not> nat (index_within_archive r mod 2 ^ 64) \<ge> length (g_nodes_by_index st)"
    "g_nodes_by_index st ! nat (index_within_archive r mod 2 ^ 64) = Some k"
    "g_nodes_by_name st k = Some n"
    by auto
  have m: "my_read opened p dst_len offset fh st = Returns (int c, ?bs, fh, ?st')"
    unfolding my_read_def Let_def
    apply (simp only: args live size if_False if_True option.case option.distinct simp_thms)
    apply (simp only: clamp)
    apply (simp only: c(1) run if_False prod.case bool.case)
    done
  have len: "(\<forall>j<NUM_SIDE_BUFFERS. nat (sbm_length (g_side_buffer_metadata st ! j))
                  \<le> length (g_side_buffer_data st ! j)) \<longrightarrow> length ?bs = c"
    using contains_copy_length [OF b(2)] b(1) by blast
  have "\<exists>bs st'.
            my_read opened p dst_len offset fh st = Returns (int c, bs, fh, st') \<and>
            read_from_side_buffer (index_within_archive r) c offset st = (True, bs, st') \<and>
            st' = st\<lparr>g_side_buffer_metadata := g_side_buffer_metadata st',
                      next_lru_priority := next_lru_priority st'\<rparr> \<and>
            ((\<forall>j<NUM_SIDE_BUFFERS. nat (sbm_length (g_side_buffer_metadata st ! j))
                  \<le> length (g_side_buffer_data st ! j)) \<longrightarrow> length bs = c)"
    using m run len read_from_side_buffer_frame [OF run]
    by (intro exI [of _ ?bs] exI [of _ ?st']) blast
  then show "\<exists>bs st'.
            my_read opened p dst_len offset fh st =
              Returns (int (min dst_len (nat (node_size n - offset))), bs, fh, st') \<and>
            read_from_side_buffer (index_within_archive r)
              (min dst_len (nat (node_size n - offset))) offset st = (True, bs, st') \<and>
            st' = st\<lparr>g_side_buffer_metadata := g_side_buffer_metadata st',
                      next_lru_priority := next_lru_priority st'\<rparr> \<and>
            ((\<forall>j<NUM_SIDE_BUFFERS. nat (sbm_length (g_side_buffer_metadata st ! j))
                  \<le> length (g_side_buffer_data st ! j)) \<longrightarrow>
               length bs = min dst_len (nat (node_size n - offset)))"
    unfolding c_def .
qed

lemma example_tree_simps:
  "g_nodes_by_index example_tree = [None, None, None, Some ''/docs/a.txt'']"
  "g_nodes_by_name example_tree ''/docs/a.txt'' = Some example_leaf"
  "g_side_buffer_metadata example_tree = g_side_buffer_metadata example_globals"
  "g_side_buffer_data example_tree = g_side_buffer_data example_globals"
  "next_lru_priority example_tree = 2"
  by (simp_all add: example_tree_def example_globals_def)

lemma read_from_side_buffer_example_tree:
  "read_from_side_buffer 3 4 10 example_tree =
     (True, [20, 21, 22, 23],
      example_tree\<lparr>g_side_buffer_metadata := (g_side_buffer_metadata example_globals)[1 :=
          \<lparr>sbm_index_within_archive = 3, sbm_offset_within_entry = 4,
           sbm_length = 12, sbm_lru_priority = 3\<rparr>],
        next_lru_priority := 3\<rparr>)"
proof -
  have metas: "g_side_buffer_metadata example_globals =
       [\<lparr>sbm_index_within_archive = 3, sbm_offset_within_entry = 8,
          sbm_length = 6, sbm_lru_priority = 1\<rparr>,
        \<lparr>sbm_index_within_archive = 3, sbm_offset_within_entry = 4,
          sbm_length = 12, sbm_lru_priority = 2\<rparr>,
        empty_metadata, empty_metadata, empty_metadata,
        empty_metadata, empty_metadata, empty_metadata]"
    by (simp add: example_globals_def)
  have best: "fold (read_from_side_buffer_step (g_side_buffer_metadata example_tree) 3 10 4)
      [0..<NUM_SIDE_BUFFERS] (- 1, - 1) = (1, 12)"
    by (simp add: example_tree_simps metas read_from_side_buffer_step_def contains_def
          empty_metadata_def NUM_SIDE_BUFFERS_def upt_8)
  show ?thesis
    by (simp add: read_from_side_buffer_def Let_def best)
       (simp add: example_tree_simps metas, simp add: example_globals_def)
qed

theorem my_read_side_buffer_path_witness:
  "my_read None ''/docs/a.txt'' 100 (- 1) (Some example_reader) example_tree =
     Returns (- EINVAL, [], Some example_reader, example_tree) \<and>
   my_read None ''/docs/a.txt'' 100 14 (Some example_reader) example_tree =
     Returns (0, [], Some example_reader, example_tree) \<and>
   my_read None ''/docs/a.txt'' 100 10 (Some example_reader) example_tree =
     Returns (4, [20, 21, 22, 23], Some example_reader,
        example_tree\<lparr>g_side_buffer_metadata := (g_side_buffer_metadata example_globals)[1 :=
            \<lparr>sbm_index_within_archive = 3, sbm_offset_within_entry = 4,
             sbm_length = 12, sbm_lru_priority = 3\<rparr>],
          next_lru_priority := 3\<rparr>)"
proof -
  note inst = my_read_side_buffer_path [of _ _ None "''/docs/a.txt''" "Some example_reader"
      example_tree example_reader "''/docs/a.txt''" example_leaf]
  have inval: "my_read None ''/docs/a.txt'' 100 (- 1) (Some example_reader) example_tree =
     Returns (- EINVAL, [], Some example_reader, example_tree)"
    using inst [of "- 1" 100, THEN conjunct1] by simp
  have pre: "dst_len \<le> INT_MAX \<Longrightarrow> 0 \<le> offset \<Longrightarrow> 0 \<le> offset \<and> dst_len \<le> INT_MAX \<and>
    Some example_reader = Some example_reader \<and>
    archive example_reader \<noteq> None \<and> archive_entry example_reader \<noteq> None \<and>
    nat (index_within_archive example_reader mod 2 ^ 64) < length (g_nodes_by_index example_tree) \<and>
    g_nodes_by_index example_tree ! nat (index_within_archive example_reader mod 2 ^ 64) =
      Some ''/docs/a.txt'' \<and>
    g_nodes_by_name example_tree ''/docs/a.txt'' = Some example_leaf \<and>
    0 \<le> node_size example_leaf" for dst_len :: nat and offset :: int
    by (simp add: example_reader_simps example_tree_simps example_leaf_def)
  have small: "(100::nat) \<le> INT_MAX" by (simp add: INT_MAX_def)
  have zero: "my_read None ''/docs/a.txt'' 100 14 (Some example_reader) example_tree =
     Returns (0, [], Some example_reader, example_tree)"
    using inst [of 14 100, THEN conjunct2, rule_format, OF pre [OF small], THEN conjunct1]
    by (simp add: example_leaf_def)
  have c: "min 100 (nat (node_size example_leaf - 10)) = 4"
    by (simp add: example_leaf_def)
  have cover: "min 100 (nat (node_size example_leaf - 10)) \<noteq> 0 \<and>
       (\<exists>j<NUM_SIDE_BUFFERS. contains (g_side_buffer_metadata example_tree ! j)
            (index_within_archive example_reader) 10 (min 100 (nat (node_size example_leaf - 10))))"
    unfolding c
    by (simp add: example_tree_simps example_reader_simps)
       (rule exI [of _ 1], simp add: NUM_SIDE_BUFFERS_def example_globals_def contains_def)
  from inst [of 10 100, THEN conjunct2, rule_format, OF pre [OF small], THEN conjunct2,
      rule_format, OF _ cover]
  have hit: "my_read None ''/docs/a.txt'' 100 10 (Some example_reader) example_tree =
     Returns (4, [20, 21, 22, 23], Some example_reader,
        example_tree\<lparr>g_side_buffer_metadata := (g_side_buffer_metadata example_globals)[1 :=
            \<lparr>sbm_index_within_archive = 3, sbm_offset_within_entry = 4,
             sbm_length = 12, sbm_lru_priority = 3\<rparr>],
          next_lru_priority := 3\<rparr>)"
    unfolding c
    by (auto simp: example_reader_simps read_from_side_buffer_example_tree)
  show ?thesis using inval zero hit by simp
qed

lemma reader_read_pathname: "reader_read this n p1 = reader_read this n p2"
  by (simp add: reader_read_def)

lemma advance_offset_loop_pathname:
  "advance_offset_loop want p1 sb this st = advance_offset_loop want p2 sb this st"
proof (induction want p1 sb this st rule: advance_offset_loop.induct)
  case (1 want pathname sb this st)
  show ?case
  proof (cases "want > offset_within_entry this")
    case False
    then show ?thesis
      by (simp add: advance_offset_loop.simps [of want pathname sb this st]
            advance_offset_loop.simps [of want p2 sb this st])
  next
    case True
    let ?d = "advance_offset_dst_len (want - offset_within_entry this)"
    show ?thesis
    proof (cases "reader_read this (nat ?d) pathname")
      case (Returns x)
      obtain n bs this1 where x: "x = (n, bs, this1)" by (cases x) auto
      have r2: "reader_read this (nat ?d) p2 = Returns (n, bs, this1)"
        using Returns x reader_read_pathname [of this "nat ?d" p2 pathname] by simp
      show ?thesis
      proof (cases "n < 0 \<or> (n = 0 \<and> (case archive this of None \<Rightarrow> True | Some a \<Rightarrow> reads a = []))")
        case True
        with \<open>want > offset_within_entry this\<close> Returns x r2 show ?thesis
          by (auto simp: advance_offset_loop.simps [of want pathname sb this st]
            advance_offset_loop.simps [of want p2 sb this st] Let_def)
      next
        case False
        then have f: "\<not> n < 0"
          "\<not> (n = 0 \<and> (case archive this of None \<Rightarrow> True | Some a \<Rightarrow> reads a = []))"
          by auto
        note ih = "1.IH" [OF True refl refl Returns [unfolded x] refl refl f(1) refl refl f(2)]
        from True Returns x r2 f ih show ?thesis
          by (auto simp: advance_offset_loop.simps [of want pathname sb this st]
            advance_offset_loop.simps [of want p2 sb this st] Let_def)
      qed
    next
      case Aborts
      then have "reader_read this (nat ?d) p2 = Aborts"
        using reader_read_pathname [of this "nat ?d" p2 pathname] by simp
      with True Aborts show ?thesis
        by (simp add: advance_offset_loop.simps [of want pathname sb this st]
            advance_offset_loop.simps [of want p2 sb this st] Let_def)
    next
      case Hangs
      then have "reader_read this (nat ?d) p2 = Hangs"
        using reader_read_pathname [of this "nat ?d" p2 pathname] by simp
      with True Hangs show ?thesis
        by (simp add: advance_offset_loop.simps [of want pathname sb this st]
            advance_offset_loop.simps [of want p2 sb this st] Let_def)
    qed
  qed
qed

lemma advance_offset_pathname:
  "advance_offset want p1 this st = advance_offset want p2 this st"
  by (simp add: advance_offset_def advance_offset_loop_pathname [of want p1 _ this _ p2]
        split: prod.splits)

lemma my_read_found:
  assumes args: "0 \<le> offset" "dst_len \<le> INT_MAX"
      and fh: "fh = Some r" "archive r \<noteq> None" "archive_entry r \<noteq> None"
      and slot: "nat (index_within_archive r mod 2 ^ 64) < length (g_nodes_by_index st)"
                "g_nodes_by_index st ! nat (index_within_archive r mod 2 ^ 64) = Some k"
                "g_nodes_by_name st k = Some n" "0 \<le> node_size n"
      and c: "c = min dst_len (nat (node_size n - offset))"
  shows "(c = 0 \<longrightarrow> my_read opened p dst_len offset fh st = Returns (0, [], fh, st)) \<and>
         (c \<noteq> 0 \<and> (\<exists>j<NUM_SIDE_BUFFERS. contains (g_side_buffer_metadata st ! j)
                        (index_within_archive r) offset c) \<longrightarrow>
            (\<exists>bs st'. read_from_side_buffer (index_within_archive r) c offset st = (True, bs, st') \<and>
               my_read opened p dst_len offset fh st = Returns (int c, bs, fh, st'))) \<and>
         (c \<noteq> 0 \<and> \<not> (\<exists>j<NUM_SIDE_BUFFERS. contains (g_side_buffer_metadata st ! j)
                        (index_within_archive r) offset c) \<and>
          offset_within_entry r \<le> offset \<longrightarrow>
            my_read opened p dst_len offset fh st = advance_and_read r c offset p st) \<and>
         (c \<noteq> 0 \<and> \<not> (\<exists>j<NUM_SIDE_BUFFERS. contains (g_side_buffer_metadata st ! j)
                        (index_within_archive r) offset c) \<and>
          offset < offset_within_entry r \<longrightarrow>
            my_read opened p dst_len offset fh st =
              (case acquire_reader opened (index_within_archive r) st of
                 (None, st2) \<Rightarrow> Returns (- EIO, [], fh, st2)
               | (Some ur, st2) \<Rightarrow>
                   if archive ur = None \<or> archive_entry ur = None
                   then Returns (- EIO, [], fh, st2)
                   else advance_and_read (fst (swap r ur)) c offset p
                          (release_reader (Some (snd (swap r ur))) st2)))"
proof (intro conjI impI)
  from fh obtain a e where live: "archive r = Some a" "archive_entry r = Some e" by auto
  have pre: "\<not> (offset < 0 \<or> dst_len > INT_MAX)"
    "\<not> nat (index_within_archive r mod 2 ^ 64) \<ge> length (g_nodes_by_index st)"
    "\<not> node_size n < 0"
    using args slot by auto
  have clamp: "(if dst_len > nat (node_size n - offset) then nat (node_size n - offset) else dst_len) = c"
    by (simp add: min_def c)
  {
    assume "c = 0"
    with args fh slot c show "my_read opened p dst_len offset fh st = Returns (0, [], fh, st)"
      by (auto simp: my_read_def Let_def min_def split: if_splits)
  }
  {
    assume h: "c \<noteq> 0 \<and> (\<exists>j<NUM_SIDE_BUFFERS. contains (g_side_buffer_metadata st ! j)
                        (index_within_archive r) offset c)"
    then have size: "\<not> node_size n \<le> offset" using c by auto
    from read_from_side_buffer_hit [OF h [THEN conjunct2]]
    obtain bs st' where run: "read_from_side_buffer (index_within_archive r) c offset st = (True, bs, st')"
      by blast
    have m: "my_read opened p dst_len offset fh st = Returns (int c, bs, fh, st')"
      unfolding my_read_def Let_def
      apply (simp only: pre fh(1) slot live size if_False if_True option.case option.distinct simp_thms)
      apply (simp only: clamp)
      apply (simp only: h [THEN conjunct1] run if_False prod.case bool.case)
      done
    with run show "\<exists>bs st'. read_from_side_buffer (index_within_archive r) c offset st = (True, bs, st') \<and>
               my_read opened p dst_len offset fh st = Returns (int c, bs, fh, st')"
      by blast
  }
  {
    assume h: "c \<noteq> 0 \<and> \<not> (\<exists>j<NUM_SIDE_BUFFERS. contains (g_side_buffer_metadata st ! j)
                        (index_within_archive r) offset c) \<and>
          offset_within_entry r \<le> offset"
    then have size: "\<not> node_size n \<le> offset" using c by auto
    from h have miss: "read_from_side_buffer (index_within_archive r) c offset st = (False, [], st)"
      by (intro read_from_side_buffer_miss) blast
    from h have fwd: "\<not> offset < offset_within_entry r" by simp
    show "my_read opened p dst_len offset fh st = advance_and_read r c offset p st"
      unfolding my_read_def Let_def advance_and_read_def
      apply (simp only: pre fh(1) slot live size if_False if_True option.case option.distinct simp_thms)
      apply (simp only: clamp)
      apply (simp only: h [THEN conjunct1] miss fwd if_False prod.case bool.case option.case)
      done
  }
  {
    assume h: "c \<noteq> 0 \<and> \<not> (\<exists>j<NUM_SIDE_BUFFERS. contains (g_side_buffer_metadata st ! j)
                        (index_within_archive r) offset c) \<and>
          offset < offset_within_entry r"
    then have size: "\<not> node_size n \<le> offset" using c by auto
    from h have miss: "read_from_side_buffer (index_within_archive r) c offset st = (False, [], st)"
      by (intro read_from_side_buffer_miss) blast
    from h have bwd: "offset < offset_within_entry r" by simp
    show "my_read opened p dst_len offset fh st =
              (case acquire_reader opened (index_within_archive r) st of
                 (None, st2) \<Rightarrow> Returns (- EIO, [], fh, st2)
               | (Some ur, st2) \<Rightarrow>
                   if archive ur = None \<or> archive_entry ur = None
                   then Returns (- EIO, [], fh, st2)
                   else advance_and_read (fst (swap r ur)) c offset p
                          (release_reader (Some (snd (swap r ur))) st2))"
      unfolding my_read_def Let_def advance_and_read_def
      apply (simp only: pre fh(1) slot live size if_False if_True option.case option.distinct simp_thms)
      apply (simp only: clamp)
      apply (simp only: h [THEN conjunct1] miss bwd if_False if_True prod.case bool.case)
      apply (cases "acquire_reader opened (index_within_archive r) st")
      apply (auto split: option.splits prod.splits)
      done
  }
qed


text \<open>
  C9. The pathname argument of \<open>my_read\<close> does not influence the call: with any other
  pathname it returns the same result, bytes, Reader and globals. The node is found through
  the Reader's \<open>index_within_archive\<close> (as \<open>uint64_t\<close>) in \<open>g_nodes_by_index\<close>. For
  arguments that pass validation:
  \<^item> the read returns \<open>-EIO\<close> and changes nothing when the handle holds no Reader, when the
    Reader has no stream or no entry, when the index is at or beyond the length of
    \<open>g_nodes_by_index\<close>, when the slot at the index is empty, and when the node's size is
    negative;
  \<^item> otherwise the node \<open>n\<close> in the slot is the file that is served. With \<open>c\<close> the length
    clamped to \<open>n.size - offset\<close>: nothing to read returns 0; a request that the side
    buffers cover under the Reader's index returns \<open>c\<close> bytes from them; a request at or
    ahead of the Reader's offset is advanced to and read, \<open>c\<close> bytes at most, through the
    Reader of the handle; and a request behind it through a Reader acquired for the same
    index and swapped into the handle.
\<close>

theorem my_read_by_index:
  "my_read opened p1 dst_len offset fh st = my_read opened p2 dst_len offset fh st \<and>
   (0 \<le> offset \<and> dst_len \<le> INT_MAX \<longrightarrow>
      (fh = None \<longrightarrow> my_read opened p1 dst_len offset fh st = Returns (- EIO, [], fh, st)) \<and>
      (\<forall>r. fh = Some r \<longrightarrow>
         (archive r = None \<or> archive_entry r = None \<longrightarrow>
            my_read opened p1 dst_len offset fh st = Returns (- EIO, [], fh, st)) \<and>
         (archive r \<noteq> None \<and> archive_entry r \<noteq> None \<longrightarrow>
            (length (g_nodes_by_index st) \<le> nat (index_within_archive r mod 2 ^ 64) \<longrightarrow>
               my_read opened p1 dst_len offset fh st = Returns (- EIO, [], fh, st)) \<and>
            (nat (index_within_archive r mod 2 ^ 64) < length (g_nodes_by_index st) \<longrightarrow>
               (g_nodes_by_index st ! nat (index_within_archive r mod 2 ^ 64) = None \<longrightarrow>
                  my_read opened p1 dst_len offset fh st = Returns (- EIO, [], fh, st)) \<and>
               (\<forall>k n. g_nodes_by_index st ! nat (index_within_archive r mod 2 ^ 64) = Some k \<and>
                    g_nodes_by_name st k = Some n \<and> node_size n < 0 \<longrightarrow>
                  my_read opened p1 dst_len offset fh st = Returns (- EIO, [], fh, st)) \<and>
               (\<forall>k n c. g_nodes_by_index st ! nat (index_within_archive r mod 2 ^ 64) = Some k \<and>
                    g_nodes_by_name st k = Some n \<and> 0 \<le> node_size n \<and>
                    c = min dst_len (nat (node_size n - offset)) \<longrightarrow>
                  (c = 0 \<longrightarrow> my_read opened p1 dst_len offset fh st = Returns (0, [], fh, st)) \<and>
                  (c \<noteq> 0 \<and> (\<exists>j<NUM_SIDE_BUFFERS. contains (g_side_buffer_metadata st ! j)
                                 (index_within_archive r) offset c) \<longrightarrow>
                     (\<exists>bs st'. read_from_side_buffer (index_within_archive r) c offset st =
                                 (True, bs, st') \<and>
                        my_read opened p1 dst_len offset fh st = Returns (int c, bs, fh, st'))) \<and>
                  (c \<noteq> 0 \<and> \<not> (\<exists>j<NUM_SIDE_BUFFERS. contains (g_side_buffer_metadata st ! j)
                                 (index_within_archive r) offset c) \<and>
                   offset_within_entry r \<le> offset \<longrightarrow>
                     my_read opened p1 dst_len offset fh st = advance_and_read r c offset p1 st) \<and>
                  (c \<noteq> 0 \<and> \<not> (\<exists>j<NUM_SIDE_BUFFERS. contains (g_side_buffer_metadata st ! j)
                                 (index_within_archive r) offset c) \<and>
                   offset < offset_within_entry r \<longrightarrow>
                     my_read opened p1 dst_len offset fh st =
                       (case acquire_reader opened (index_within_archive r) st of
                          (None, st2) \<Rightarrow> Returns (- EIO, [], fh, st2)
                        | (Some ur, st2) \<Rightarrow>
                            if archive ur = None \<or> archive_entry ur = None
                            then Returns (- EIO, [], fh, st2)
                            else advance_and_read (fst (swap r ur)) c offset p1
                                   (release_reader (Some (snd (swap r ur))) st2))))))))"
proof -
  have indep: "my_read opened p1 dst_len offset fh st = my_read opened p2 dst_len offset fh st"
    unfolding my_read_def
    by (simp only: advance_offset_pathname [of offset p1 _ _ p2]
          reader_read_pathname [of _ _ p1 p2])
  have errs: "0 \<le> offset \<and> dst_len \<le> INT_MAX \<longrightarrow>
      (fh = None \<longrightarrow> my_read opened p1 dst_len offset fh st = Returns (- EIO, [], fh, st)) \<and>
      (\<forall>r. fh = Some r \<longrightarrow>
         (archive r = None \<or> archive_entry r = None \<longrightarrow>
            my_read opened p1 dst_len offset fh st = Returns (- EIO, [], fh, st)) \<and>
         (archive r \<noteq> None \<and> archive_entry r \<noteq> None \<longrightarrow>
            (length (g_nodes_by_index st) \<le> nat (index_within_archive r mod 2 ^ 64) \<longrightarrow>
               my_read opened p1 dst_len offset fh st = Returns (- EIO, [], fh, st)) \<and>
            (nat (index_within_archive r mod 2 ^ 64) < length (g_nodes_by_index st) \<longrightarrow>
               (g_nodes_by_index st ! nat (index_within_archive r mod 2 ^ 64) = None \<longrightarrow>
                  my_read opened p1 dst_len offset fh st = Returns (- EIO, [], fh, st)) \<and>
               (\<forall>k n. g_nodes_by_index st ! nat (index_within_archive r mod 2 ^ 64) = Some k \<and>
                    g_nodes_by_name st k = Some n \<and> node_size n < 0 \<longrightarrow>
                  my_read opened p1 dst_len offset fh st = Returns (- EIO, [], fh, st)))))"
    by (auto simp: my_read_def Let_def)
  have found: "\<forall>k n c. g_nodes_by_index st ! nat (index_within_archive r mod 2 ^ 64) = Some k \<and>
                    g_nodes_by_name st k = Some n \<and> 0 \<le> node_size n \<and>
                    c = min dst_len (nat (node_size n - offset)) \<longrightarrow>
                  (c = 0 \<longrightarrow> my_read opened p1 dst_len offset fh st = Returns (0, [], fh, st)) \<and>
                  (c \<noteq> 0 \<and> (\<exists>j<NUM_SIDE_BUFFERS. contains (g_side_buffer_metadata st ! j)
                                 (index_within_archive r) offset c) \<longrightarrow>
                     (\<exists>bs st'. read_from_side_buffer (index_within_archive r) c offset st =
                                 (True, bs, st') \<and>
                        my_read opened p1 dst_len offset fh st = Returns (int c, bs, fh, st'))) \<and>
                  (c \<noteq> 0 \<and> \<not> (\<exists>j<NUM_SIDE_BUFFERS. contains (g_side_buffer_metadata st ! j)
                                 (index_within_archive r) offset c) \<and>
                   offset_within_entry r \<le> offset \<longrightarrow>
                     my_read opened p1 dst_len offset fh st = advance_and_read r c offset p1 st) \<and>
                  (c \<noteq> 0 \<and> \<not> (\<exists>j<NUM_SIDE_BUFFERS. contains (g_side_buffer_metadata st ! j)
                                 (index_within_archive r) offset c) \<and>
                   offset < offset_within_entry r \<longrightarrow>
                     my_read opened p1 dst_len offset fh st =
                       (case acquire_reader opened (index_within_archive r) st of
                          (None, st2) \<Rightarrow> Returns (- EIO, [], fh, st2)
                        | (Some ur, st2) \<Rightarrow>
                            if archive ur = None \<or> archive_entry ur = None
                            then Returns (- EIO, [], fh, st2)
                            else advance_and_read (fst (swap r ur)) c offset p1
                                   (release_reader (Some (snd (swap r ur))) st2)))"
    if "0 \<le> offset" "dst_len \<le> INT_MAX" "fh = Some r" "archive r \<noteq> None" "archive_entry r \<noteq> None"
      "nat (index_within_archive r mod 2 ^ 64) < length (g_nodes_by_index st)" for r
  proof (intro allI impI, elim conjE)
    fix k n c
    assume slot: "g_nodes_by_index st ! nat (index_within_archive r mod 2 ^ 64) = Some k"
      "g_nodes_by_name st k = Some n" "0 \<le> node_size n" "c = min dst_len (nat (node_size n - offset))"
    show "(c = 0 \<longrightarrow> my_read opened p1 dst_len offset fh st = Returns (0, [], fh, st)) \<and>
                  (c \<noteq> 0 \<and> (\<exists>j<NUM_SIDE_BUFFERS. contains (g_side_buffer_metadata st ! j)
                                 (index_within_archive r) offset c) \<longrightarrow>
                     (\<exists>bs st'. read_from_side_buffer (index_within_archive r) c offset st =
                                 (True, bs, st') \<and>
                        my_read opened p1 dst_len offset fh st = Returns (int c, bs, fh, st'))) \<and>
                  (c \<noteq> 0 \<and> \<not> (\<exists>j<NUM_SIDE_BUFFERS. contains (g_side_buffer_metadata st ! j)
                                 (index_within_archive r) offset c) \<and>
                   offset_within_entry r \<le> offset \<longrightarrow>
                     my_read opened p1 dst_len offset fh st = advance_and_read r c offset p1 st) \<and>
                  (c \<noteq> 0 \<and> \<not> (\<exists>j<NUM_SIDE_BUFFERS. contains (g_side_buffer_metadata st ! j)
                                 (index_within_archive r) offset c) \<and>
                   offset < offset_within_entry r \<longrightarrow>
                     my_read opened p1 dst_len offset fh st =
                       (case acquire_reader opened (index_within_archive r) st of
                          (None, st2) \<Rightarrow> Returns (- EIO, [], fh, st2)
                        | (Some ur, st2) \<Rightarrow>
                            if archive ur = None \<or> archive_entry ur = None
                            then Returns (- EIO, [], fh, st2)
                            else advance_and_read (fst (swap r ur)) c offset p1
                                   (release_reader (Some (snd (swap r ur))) st2)))"
      by (rule my_read_found [OF that slot])
  qed
  from indep errs found show ?thesis by blast
qed


text \<open>
  The five refusals, and three reads that are served although the pathname names no file:
  at the end of the node in slot 3, from side buffer 1, and from the library.
\<close>

theorem my_read_by_index_witness:
  "my_read None ''/docs/a.txt'' 100 0 None example_tree = Returns (- EIO, [], None, example_tree) \<and>
   my_read None ''/docs/a.txt'' 100 0 (Some (example_reader\<lparr>archive_entry := None\<rparr>)) example_tree =
     Returns (- EIO, [], Some (example_reader\<lparr>archive_entry := None\<rparr>), example_tree) \<and>
   my_read None ''/docs/a.txt'' 100 0 (Some (example_reader\<lparr>index_within_archive := 7\<rparr>)) example_tree =
     Returns (- EIO, [], Some (example_reader\<lparr>index_within_archive := 7\<rparr>), example_tree) \<and>
   my_read None ''/docs/a.txt'' 100 0 (Some (example_reader\<lparr>index_within_archive := 1\<rparr>)) example_tree =
     Returns (- EIO, [], Some (example_reader\<lparr>index_within_archive := 1\<rparr>), example_tree) \<and>
   my_read None ''/docs/a.txt'' 100 0 (Some example_reader)
       (example_tree\<lparr>g_nodes_by_name := (g_nodes_by_name example_tree)
           (''/docs/a.txt'' \<mapsto> example_leaf\<lparr>node_size := - 1\<rparr>)\<rparr>) =
     Returns (- EIO, [], Some example_reader,
       example_tree\<lparr>g_nodes_by_name := (g_nodes_by_name example_tree)
           (''/docs/a.txt'' \<mapsto> example_leaf\<lparr>node_size := - 1\<rparr>)\<rparr>) \<and>
   my_read None ''/no/such/name'' 100 14 (Some example_reader) example_tree =
     Returns (0, [], Some example_reader, example_tree) \<and>
   my_read None ''/no/such/name'' 100 10 (Some example_reader) example_tree =
     Returns (4, [20, 21, 22, 23], Some example_reader,
        example_tree\<lparr>g_side_buffer_metadata := (g_side_buffer_metadata example_globals)[1 :=
            \<lparr>sbm_index_within_archive = 3, sbm_offset_within_entry = 4,
             sbm_length = 12, sbm_lru_priority = 3\<rparr>],
          next_lru_priority := 3\<rparr>) \<and>
   my_read None ''/no/such/name'' 4 5 (Some example_reader) bare_tree =
     Returns (1, [7],
        Some (example_reader\<lparr>archive := Some (example_archive\<lparr>
                 reads := [\<lambda>n. Data (replicate 131072 0), \<lambda>n. Data [9]], asked := [4]\<rparr>),
               offset_within_entry := 6\<rparr>),
        bare_tree)"
proof -
  have args: "0 \<le> (0::int) \<and> (100::nat) \<le> INT_MAX" by (simp add: INT_MAX_def)
  note inst = my_read_by_index [of None "''/docs/a.txt''" 100 0 _ _ "''/docs/a.txt''",
      THEN conjunct2, rule_format, OF args]
  have 1: "my_read None ''/docs/a.txt'' 100 0 None example_tree = Returns (- EIO, [], None, example_tree)"
    using inst [of None example_tree, THEN conjunct1] by simp
  have 2: "my_read None ''/docs/a.txt'' 100 0 (Some (example_reader\<lparr>archive_entry := None\<rparr>)) example_tree =
     Returns (- EIO, [], Some (example_reader\<lparr>archive_entry := None\<rparr>), example_tree)"
    using inst [of "Some (example_reader\<lparr>archive_entry := None\<rparr>)" example_tree,
        THEN conjunct2, rule_format, OF refl, THEN conjunct1]
    by simp
  have 3: "my_read None ''/docs/a.txt'' 100 0 (Some (example_reader\<lparr>index_within_archive := 7\<rparr>)) example_tree =
     Returns (- EIO, [], Some (example_reader\<lparr>index_within_archive := 7\<rparr>), example_tree)"
    using inst [of "Some (example_reader\<lparr>index_within_archive := 7\<rparr>)" example_tree,
        THEN conjunct2, rule_format, OF refl, THEN conjunct2]
    by (simp add: example_reader_simps example_tree_simps)
  have 4: "my_read None ''/docs/a.txt'' 100 0 (Some (example_reader\<lparr>index_within_archive := 1\<rparr>)) example_tree =
     Returns (- EIO, [], Some (example_reader\<lparr>index_within_archive := 1\<rparr>), example_tree)"
    using inst [of "Some (example_reader\<lparr>index_within_archive := 1\<rparr>)" example_tree,
        THEN conjunct2, rule_format, OF refl, THEN conjunct2]
    by (simp add: example_reader_simps example_tree_simps)
  let ?t = "example_tree\<lparr>g_nodes_by_name := (g_nodes_by_name example_tree)
           (''/docs/a.txt'' \<mapsto> example_leaf\<lparr>node_size := - 1\<rparr>)\<rparr>"
  have 5: "my_read None ''/docs/a.txt'' 100 0 (Some example_reader) ?t =
     Returns (- EIO, [], Some example_reader, ?t)"
    using inst [of "Some example_reader" ?t,
        THEN conjunct2, rule_format, OF refl, THEN conjunct2]
    by (simp add: example_reader_simps example_tree_simps)
  have live: "archive example_reader \<noteq> None \<and> archive_entry example_reader \<noteq> None"
    by (simp add: example_reader_simps)
  have small: "(100::nat) \<le> INT_MAX" "(4::nat) \<le> INT_MAX" by (simp_all add: INT_MAX_def)
  have slot: "nat (index_within_archive example_reader mod 2 ^ 64) < length (g_nodes_by_index st)"
    "g_nodes_by_index st ! nat (index_within_archive example_reader mod 2 ^ 64) = Some ''/docs/a.txt'' \<and>
     g_nodes_by_name st ''/docs/a.txt'' = Some example_leaf \<and> 0 \<le> node_size example_leaf \<and>
     min dst_len (nat (node_size example_leaf - offset)) = min dst_len (nat (node_size example_leaf - offset))"
    if "st = example_tree \<or> st = bare_tree" for st dst_len offset
    using that
    by (auto simp: example_reader_simps example_tree_simps bare_tree_def example_leaf_def)
  note found = my_read_by_index [of None "''/no/such/name''" _ _ "Some example_reader" _ "''/docs/a.txt''",
      THEN conjunct2, rule_format, THEN conjunct2, rule_format, OF _ refl,
      THEN conjunct2, rule_format, OF _ live, THEN conjunct2, rule_format, OF _ slot(1),
      THEN conjunct2, THEN conjunct2, rule_format, OF _ _ slot(2)]
  have a14: "0 \<le> (14::int) \<and> (100::nat) \<le> INT_MAX" "0 \<le> (10::int) \<and> (100::nat) \<le> INT_MAX"
    "0 \<le> (5::int) \<and> (4::nat) \<le> INT_MAX"
    using small by simp_all
  have t: "example_tree = example_tree \<or> example_tree = bare_tree"
    "bare_tree = example_tree \<or> bare_tree = bare_tree"
    by simp_all
  have c14: "min 100 (nat (node_size example_leaf - 14)) = 0"
    and c10: "min 100 (nat (node_size example_leaf - 10)) = 4"
    and c5: "min 4 (nat (node_size example_leaf - 5)) = 4"
    by (simp_all add: example_leaf_def)
  from found [OF a14(1) t(1) t(1), THEN conjunct1, rule_format, OF c14]
  have 6: "my_read None ''/no/such/name'' 100 14 (Some example_reader) example_tree =
     Returns (0, [], Some example_reader, example_tree)" .
  have cover: "min 100 (nat (node_size example_leaf - 10)) \<noteq> 0 \<and>
       (\<exists>j<NUM_SIDE_BUFFERS. contains (g_side_buffer_metadata example_tree ! j)
            (index_within_archive example_reader) 10 (min 100 (nat (node_size example_leaf - 10))))"
    unfolding c10
    by (simp add: example_tree_simps example_reader_simps)
       (rule exI [of _ 1], simp add: NUM_SIDE_BUFFERS_def example_globals_def contains_def)
  from found [OF a14(2) t(1) t(1), THEN conjunct2, THEN conjunct1, rule_format, OF cover]
  have 7: "my_read None ''/no/such/name'' 100 10 (Some example_reader) example_tree =
     Returns (4, [20, 21, 22, 23], Some example_reader,
        example_tree\<lparr>g_side_buffer_metadata := (g_side_buffer_metadata example_globals)[1 :=
            \<lparr>sbm_index_within_archive = 3, sbm_offset_within_entry = 4,
             sbm_length = 12, sbm_lru_priority = 3\<rparr>],
          next_lru_priority := 3\<rparr>)"
    unfolding c10
    by (auto simp: example_reader_simps read_from_side_buffer_example_tree)
  have bare: "min 4 (nat (node_size example_leaf - 5)) \<noteq> 0 \<and>
       \<not> (\<exists>j<NUM_SIDE_BUFFERS. contains (g_side_buffer_metadata bare_tree ! j)
            (index_within_archive example_reader) 5 (min 4 (nat (node_size example_leaf - 5)))) \<and>
       offset_within_entry example_reader \<le> 5"
    unfolding c5
    by (simp add: bare_tree_def example_reader_simps NUM_SIDE_BUFFERS_def all_less_8
          contains_def empty_metadata_def)
  from found [OF a14(3) t(2) t(2), THEN conjunct2, THEN conjunct2, THEN conjunct1, rule_format, OF bare]
  have "my_read None ''/no/such/name'' 4 5 (Some example_reader) bare_tree =
          advance_and_read example_reader 4 5 ''/no/such/name'' bare_tree"
    unfolding c5 .
  also have "\<dots> = Returns (1, [7],
        Some (example_reader\<lparr>archive := Some (example_archive\<lparr>
                 reads := [\<lambda>n. Data (replicate 131072 0), \<lambda>n. Data [9]], asked := [4]\<rparr>),
               offset_within_entry := 6\<rparr>),
        bare_tree)"
    by (simp add: advance_and_read_def advance_offset_def reader_read_def archive_read_data_def
          example_reader_simps example_archive_simps)
  finally have 8: "my_read None ''/no/such/name'' 4 5 (Some example_reader) bare_tree =
     Returns (1, [7],
        Some (example_reader\<lparr>archive := Some (example_archive\<lparr>
                 reads := [\<lambda>n. Data (replicate 131072 0), \<lambda>n. Data [9]], asked := [4]\<rparr>),
               offset_within_entry := 6\<rparr>),
        bare_tree)" .
  show ?thesis using 1 2 3 4 5 6 7 8 by simp
qed

subsection \<open>Pathname normalization\<close>

lemma fragments_nonempty: "fragments s \<noteq> []"
  by (induction s) (auto split: list.splits)

lemma fragments_unfold:
  "fragments s = takeWhile (\<lambda>c. c \<noteq> CHR ''/'') s #
     (case dropWhile (\<lambda>c. c \<noteq> CHR ''/'') s of [] \<Rightarrow> [] | x # rest \<Rightarrow> fragments rest)"
proof (induction s)
  case Nil
  show ?case by simp
next
  case (Cons c cs)
  then show ?case
    using fragments_nonempty [of cs] by (auto split: list.splits)
qed

lemma bad_fragment_iff:
  "(length frag = 0 \<or> (length frag = 1 \<and> frag ! 0 = CHR ''.'') \<or>
    (length frag = 2 \<and> frag ! 0 = CHR ''.'' \<and> frag ! 1 = CHR ''.'')) = (\<not> good_fragment frag)"
proof (cases frag)
  case Nil
  then show ?thesis by (simp add: good_fragment_def)
next
  case (Cons a as)
  show ?thesis
  proof (cases as)
    case Nil
    with Cons show ?thesis by (simp add: good_fragment_def)
  next
    case (Cons b bs)
    with \<open>frag = a # as\<close> show ?thesis by (cases bs) (auto simp: good_fragment_def)
  qed
qed

lemma valid_pathname_loop_iff:
  "valid_pathname_loop q True = (\<forall>c \<in> set (fragments q). good_fragment c)"
proof (induction q "True" rule: valid_pathname_loop.induct)
  case (1 q)
  let ?frag = "takeWhile (\<lambda>c. c \<noteq> CHR ''/'') q"
  let ?r = "dropWhile (\<lambda>c. c \<noteq> CHR ''/'') q"
  note bad = bad_fragment_iff [of ?frag]
  show ?case
  proof (cases "good_fragment ?frag")
    case False
    with bad have "\<not> valid_pathname_loop q True"
      by (subst valid_pathname_loop.simps) (auto simp: Let_def)
    moreover have "?frag \<in> set (fragments q)"
      by (subst fragments_unfold) simp
    ultimately show ?thesis using False by blast
  next
    case True
    with bad have nb: "\<not> length ?frag = 0" "\<not> (length ?frag = 1 \<and> ?frag ! 0 = CHR ''.'')"
      "\<not> (length ?frag = 2 \<and> ?frag ! 0 = CHR ''.'' \<and> ?frag ! 1 = CHR ''.'')"
      by auto
    show ?thesis
    proof (cases ?r)
      case Nil
      have f: "fragments q = [?frag]"
        by (subst fragments_unfold) (simp only: Nil list.case)
      have "valid_pathname_loop q True"
        by (subst valid_pathname_loop.simps) (simp only: Let_def Nil nb if_False if_True simp_thms)
      with True show ?thesis by (simp add: f)
    next
      case (Cons x rest)
      then have ne: "?r \<noteq> []" by simp
      have c1: "\<not> (?r \<noteq> [] \<and> \<not> True)" by simp
      from "1.hyps" [OF refl refl c1 nb ne] Cons
      have ih: "valid_pathname_loop rest True = (\<forall>c \<in> set (fragments rest). good_fragment c)"
        by simp
      have f: "fragments q = ?frag # fragments rest"
        by (subst fragments_unfold) (simp only: Cons list.case)
      have "valid_pathname_loop q True = valid_pathname_loop rest True"
        by (subst valid_pathname_loop.simps)
           (simp only: Let_def Cons nb if_False if_True simp_thms list.sel list.distinct)
      with ih True show ?thesis by (simp add: f)
    qed
  qed
qed

lemma valid_pathname_iff:
  "valid_pathname (Some s) True = (\<forall>c \<in> set (fragments (strip_leading s)). good_fragment c)"
proof -
  have e: "\<not> (\<forall>c \<in> set (fragments []). good_fragment c)"
    by (simp add: good_fragment_def)
  show ?thesis
    using e by (auto simp: valid_pathname_def strip_leading_def valid_pathname_loop_iff)
qed


lemma normalize_pathname_cases:
  "normalize_pathname e st = [] \<or>
   (\<exists>s. normalize_pathname e st = CHR ''/'' # strip_leading s \<and>
        (\<forall>c \<in> set (fragments (strip_leading s)). good_fragment c))"
proof (cases "entry_pathname_of e")
  case None
  then show ?thesis
    by (simp add: normalize_pathname_def entry_pathname_of_def)
next
  case (Some s0)
  define s where "s = (case g_archive_innername st of
                     None \<Rightarrow> s0
                   | Some inner \<Rightarrow>
                       if g_archive_is_raw st \<and> inner \<noteq> [] \<and> s0 = ''data'' then inner else s0)"
  have n: "normalize_pathname e st =
      (if \<not> valid_pathname (Some s) True then []
       else if take 2 s = ''./'' then drop 1 s
       else if take 1 s = ''/'' then s
       else ''/'' @ s)"
    using Some by (simp add: normalize_pathname_def entry_pathname_of_def s_def Let_def)
  show ?thesis
  proof (cases "valid_pathname (Some s) True")
    case False
    with n show ?thesis by simp
  next
    case True
    have "(if take 2 s = ''./'' then drop 1 s else if take 1 s = ''/'' then s else ''/'' @ s) =
          CHR ''/'' # strip_leading s"
    proof (cases s)
      case Nil
      then show ?thesis by (simp add: strip_leading_def)
    next
      case (Cons a as)
      then show ?thesis by (cases as) (auto simp: strip_leading_def)
    qed
    with n True show ?thesis
      by (auto simp: valid_pathname_iff)
  qed
qed

lemma fragments_data: "\<forall>c \<in> set (fragments (strip_leading ''data'')). good_fragment c"
  by (simp add: strip_leading_def good_fragment_def)

text \<open>
  C5. An entry with no pathname, with an empty pathname, or with a pathname of which some
  fragment (after one leading \<open>./\<close> or \<open>/\<close>) is empty, \<open>.\<close> or \<open>..\<close>, is rejected by
  \<open>normalize_pathname\<close>; a rejected entry makes \<open>insert_leaf\<close> return 0 with the archive
  and the globals unchanged, so the bootstrap goes on and no node is created. An accepted
  pathname is returned as one slash followed by a text that does not start with a slash
  and has only fragments other than the empty one, \<open>.\<close> and \<open>..\<close>.
\<close>

theorem normalize_pathname_rejects:
  "((entry_pathname_of e = None \<or>
     (\<exists>s. entry_pathname_of e = Some s \<and>
          (\<exists>c \<in> set (fragments (strip_leading s)). c = [] \<or> c = ''.'' \<or> c = ''..''))) \<longrightarrow>
      normalize_pathname e st = []) \<and>
   (normalize_pathname e st = [] \<longrightarrow> insert_leaf a e a_index st = Returns (0, a, st)) \<and>
   (normalize_pathname e st \<noteq> [] \<longrightarrow>
      (\<exists>rest. normalize_pathname e st = CHR ''/'' # rest \<and> rest \<noteq> [] \<and> hd rest \<noteq> CHR ''/'' \<and>
         (\<forall>c \<in> set (fragments rest). c \<noteq> [] \<and> c \<noteq> ''.'' \<and> c \<noteq> ''..'')))"
proof (intro conjI impI)
  assume bad: "entry_pathname_of e = None \<or>
     (\<exists>s. entry_pathname_of e = Some s \<and>
          (\<exists>c \<in> set (fragments (strip_leading s)). c = [] \<or> c = ''.'' \<or> c = ''..''))"
  show "normalize_pathname e st = []"
  proof (cases "entry_pathname_of e")
    case None
    then show ?thesis by (simp add: normalize_pathname_def entry_pathname_of_def)
  next
    case (Some s0)
    with bad have b: "\<not> (\<forall>c \<in> set (fragments (strip_leading s0)). good_fragment c)"
      by (auto simp: good_fragment_def)
    with fragments_data have "s0 \<noteq> ''data''" by blast
    then have "normalize_pathname e st = (if \<not> valid_pathname (Some s0) True then []
       else if take 2 s0 = ''./'' then drop 1 s0
       else if take 1 s0 = ''/'' then s0
       else ''/'' @ s0)"
      using Some
      by (simp add: normalize_pathname_def entry_pathname_of_def Let_def split: option.splits)
    with b show ?thesis by (simp add: valid_pathname_iff)
  qed
next
  assume "normalize_pathname e st = []"
  then show "insert_leaf a e a_index st = Returns (0, a, st)"
    by (simp add: insert_leaf_def)
next
  assume ne: "normalize_pathname e st \<noteq> []"
  with normalize_pathname_cases [of e st] obtain s where
    s: "normalize_pathname e st = CHR ''/'' # strip_leading s"
       "\<forall>c \<in> set (fragments (strip_leading s)). good_fragment c"
    by blast
  have first: "hd (fragments (strip_leading s)) \<in> set (fragments (strip_leading s))"
    using fragments_nonempty by simp
  have "strip_leading s \<noteq> [] \<and> hd (strip_leading s) \<noteq> CHR ''/''"
  proof (cases "strip_leading s")
    case Nil
    with s(2) show ?thesis by (simp add: good_fragment_def)
  next
    case (Cons x xs)
    with s(2) first show ?thesis by (auto simp: good_fragment_def split: if_splits)
  qed
  with s show "\<exists>rest. normalize_pathname e st = CHR ''/'' # rest \<and> rest \<noteq> [] \<and>
         hd rest \<noteq> CHR ''/'' \<and>
         (\<forall>c \<in> set (fragments rest). c \<noteq> [] \<and> c \<noteq> ''.'' \<and> c \<noteq> ''..'')"
    by (auto simp: good_fragment_def)
qed

theorem normalize_pathname_rejects_witness:
  "normalize_pathname evil_entry example_globals = [] \<and>
   insert_leaf example_archive evil_entry 0 example_globals =
     Returns (0, example_archive, example_globals) \<and>
   normalize_pathname example_entry example_globals = ''/docs/a.txt'' \<and>
   normalize_pathname (example_entry\<lparr>entry_pathname_utf8 := None, entry_pathname := Some ''./x/y''\<rparr>)
     example_globals = ''/x/y'' \<and>
   normalize_pathname (example_entry\<lparr>entry_pathname_utf8 := Some ''a//b''\<rparr>) example_globals = []"
proof -
  have bad: "entry_pathname_of evil_entry = None \<or>
     (\<exists>s. entry_pathname_of evil_entry = Some s \<and>
          (\<exists>c \<in> set (fragments (strip_leading s)). c = [] \<or> c = ''.'' \<or> c = ''..''))"
    by (simp add: entry_pathname_of_def evil_entry_def strip_leading_def)
  note inst = normalize_pathname_rejects [of evil_entry example_globals example_archive 0]
  from inst [THEN conjunct1, rule_format, OF bad]
  have 1: "normalize_pathname evil_entry example_globals = []" .
  from inst [THEN conjunct2, THEN conjunct1, rule_format, OF 1]
  have 2: "insert_leaf example_archive evil_entry 0 example_globals =
     Returns (0, example_archive, example_globals)" .
  have raw: "g_archive_innername example_globals = None"
    by (simp add: example_globals_def)
  have 3: "normalize_pathname example_entry example_globals = ''/docs/a.txt''"
    by (simp add: normalize_pathname_def raw example_entry_def valid_pathname_def
          valid_pathname_loop.simps Let_def)
  have 4: "normalize_pathname (example_entry\<lparr>entry_pathname_utf8 := None,
       entry_pathname := Some ''./x/y''\<rparr>) example_globals = ''/x/y''"
    by (simp add: normalize_pathname_def raw example_entry_def valid_pathname_def
          valid_pathname_loop.simps Let_def)
  have bad5: "entry_pathname_of (example_entry\<lparr>entry_pathname_utf8 := Some ''a//b''\<rparr>) = None \<or>
     (\<exists>s. entry_pathname_of (example_entry\<lparr>entry_pathname_utf8 := Some ''a//b''\<rparr>) = Some s \<and>
          (\<exists>c \<in> set (fragments (strip_leading s)). c = [] \<or> c = ''.'' \<or> c = ''..''))"
    by (simp add: entry_pathname_of_def strip_leading_def)
  from normalize_pathname_rejects [of "example_entry\<lparr>entry_pathname_utf8 := Some ''a//b''\<rparr>"
      example_globals example_archive 0, THEN conjunct1, rule_format, OF bad5]
  have 5: "normalize_pathname (example_entry\<lparr>entry_pathname_utf8 := Some ''a//b''\<rparr>)
     example_globals = []" .
  show ?thesis using 1 2 3 4 5 by simp
qed


subsection \<open>The directory tree after the bootstrap\<close>

text \<open>Bits of a mode.\<close>

lemma bits_le_refl: "bits_le x x"
  by (simp add: bits_le_def)

lemma bits_le_trans: "bits_le x y \<Longrightarrow> bits_le y z \<Longrightarrow> bits_le x z"
  unfolding bits_le_def by (metis or.assoc)

lemma bits_le_or1: "bits_le x (x OR y)"
  by (simp add: bits_le_def or.assoc [symmetric])

lemma bits_le_or2: "bits_le y (x OR y)"
  by (simp add: bits_le_def or.left_commute)

lemma bits_le_orI: "bits_le x z \<Longrightarrow> bits_le y z \<Longrightarrow> bits_le (x OR y) z"
  unfolding bits_le_def by (metis or.assoc)

lemma branch_mode_of_eq: "branch_mode_of md = propagated_bits md OR S_IFDIR"
  by (simp add: branch_mode_of_def propagated_bits_def Let_def and.assoc or.assoc)

lemma branch_mode_of_type: "branch_mode_of md AND S_IFMT = S_IFDIR"
  by (simp add: branch_mode_of_def Let_def S_IFMT_def S_IFDIR_def bit.conj_disj_distrib2 and.assoc)

lemma S_ISDIR_widen: "S_ISDIR m \<Longrightarrow> S_ISDIR (m OR branch_mode_of md)"
  using branch_mode_of_type [of md]
  by (simp add: S_ISDIR_def bit.conj_disj_distrib2)

lemma leaf_mode_of_not_dir: "\<not> S_ISDIR (leaf_mode_of md sy)"
  by (simp add: leaf_mode_of_def Let_def S_ISDIR_def S_IFMT_def S_IFDIR_def S_IFREG_def S_IFLNK_def
        bit.conj_disj_distrib2 and.assoc)

lemma propagated_bits_leaf: "propagated_bits (leaf_mode_of md sy) = propagated_bits md"
  by (simp add: propagated_bits_def leaf_mode_of_def Let_def S_IFREG_def S_IFLNK_def
        bit.conj_disj_distrib2 and.assoc)

lemma bits_le_and: "bits_le (x AND c) c"
  by (auto simp: bits_le_def bit_eq_iff bit_and_iff bit_or_iff)

lemma bits_le_and_trans: "bits_le c d \<Longrightarrow> bits_le (x AND c) d"
  using bits_le_and bits_le_trans by blast

lemma propagated_bits_bound: "bits_le (propagated_bits md) 365"
proof -
  have "bits_le (73 :: 32 word) 365" by (simp add: bits_le_def)
  then have "bits_le (drop_bit 2 md AND 73) 365" by (rule bits_le_and_trans)
  moreover have "bits_le (md AND 365) 365" by (rule bits_le_and)
  ultimately show ?thesis
    by (simp add: propagated_bits_def bits_le_orI)
qed

lemma branch_mode_of_bound: "bits_le (branch_mode_of md) (S_IFDIR OR 365)"
  unfolding branch_mode_of_eq
  by (intro bits_le_orI bits_le_trans [OF propagated_bits_bound] bits_le_or1 bits_le_or2)

lemma propagated_bits_le_branch: "bits_le (propagated_bits md) (branch_mode_of md)"
  unfolding branch_mode_of_eq by (rule bits_le_or1)

text \<open>What \<open>add_child\<close> changes: the size and the child links of the parent, the parent link
  of the child, the sibling link of the former last child.\<close>

lemma add_child_frame:
  assumes "add_child this n store = Returns store'"
  shows "(store' k = None \<longleftrightarrow> store k = None) \<and>
         (\<forall>x. store k = Some x \<longrightarrow>
            (\<exists>x'. store' k = Some x' \<and> mode x' = mode x \<and> mtime x' = mtime x \<and>
               rel_name x' = rel_name x \<and> symlink x' = symlink x \<and>
               node_index_within_archive x' = node_index_within_archive x \<and>
               (k \<noteq> this \<longrightarrow> node_size x' = node_size x) \<and>
               (k \<noteq> n \<longrightarrow> parent x' = parent x) \<and>
               (k = n \<longrightarrow> parent x' = Some this)))"
  using assms
  by (auto simp: add_child_def Let_def split: option.splits if_splits)

lemma add_child_parent_dir:
  assumes "add_child this n store = Returns store'"
  shows "\<exists>t c. store this = Some t \<and> is_dir t \<and> store n = Some c \<and> parent c = None"
  using assms
  by (auto simp: add_child_def Let_def split: option.splits if_splits)

text \<open>Keys, and the directory that holds a name.\<close>

lemma dirkey_append:
  assumes "pre \<noteq> []" "last pre = CHR ''/''" "CHR ''/'' \<notin> set frag"
  shows "dirkey (pre @ frag) = key_of pre"
proof -
  have "dropWhile (\<lambda>c. c \<noteq> CHR ''/'') (rev frag @ rev pre) = dropWhile (\<lambda>c. c \<noteq> CHR ''/'') (rev pre)"
    using assms(3) by (intro dropWhile_append2) auto
  moreover have "dropWhile (\<lambda>c. c \<noteq> CHR ''/'') (rev pre) = rev pre"
    using assms(1,2) by (cases "rev pre") (auto simp: last_rev [symmetric] hd_rev)
  ultimately show ?thesis by (simp add: dirkey_def)
qed

lemma fragment_no_slash: "CHR ''/'' \<notin> set (takeWhile (\<lambda>c. c \<noteq> CHR ''/'') q)"
  by (auto dest: set_takeWhileD)

lemma is_dir_mode: "mode n' = mode n \<Longrightarrow> is_dir n' = is_dir n"
  by (simp add: is_dir_def)

lemma carried_mode: "mode n' = mode n \<Longrightarrow> carried n' = carried n"
  by (simp add: carried_def is_dir_def)

text \<open>The parts of the invariant, one by one.\<close>

lemma store_inv_root:
  "store_inv store \<Longrightarrow> \<exists>r. store ''/'' = Some r \<and> is_dir r \<and> parent r = None"
  unfolding store_inv_def by blast

lemma store_inv_dirkey:
  "store_inv store \<Longrightarrow> store k = Some n \<Longrightarrow> k \<noteq> ''/'' \<Longrightarrow> parent n = Some (dirkey k)"
  unfolding store_inv_def by blast

lemma store_inv_bound:
  "store_inv store \<Longrightarrow> store k = Some n \<Longrightarrow> is_dir n \<Longrightarrow> bits_le (mode n) (S_IFDIR OR 365)"
  unfolding store_inv_def by blast

lemma store_inv_parent:
  "store_inv store \<Longrightarrow> store k = Some n \<Longrightarrow> parent n = Some pk \<Longrightarrow>
     \<exists>pn. store pk = Some pn \<and> is_dir pn \<and> mtime n \<le> mtime pn \<and> bits_le (carried n) (mode pn)"
  unfolding store_inv_def by blast

text \<open>Widening the node the walk stands on keeps the invariant.\<close>

lemma store_inv_widen:
  assumes inv: "store_inv store"
      and p: "store k0 = Some pn" "is_dir pn"
      and up: "\<forall>pp. parent pn = Some pp \<longrightarrow>
                 (\<exists>ppn. store pp = Some ppn \<and> mt \<le> mtime ppn \<and> bits_le (branch_mode_of md) (mode ppn))"
      and w: "mode pn2 = mode pn OR branch_mode_of md" "mtime pn2 = max (mtime pn) mt"
             "parent pn2 = parent pn"
  shows "store_inv (store(k0 \<mapsto> pn2))"
proof -
  have d2: "is_dir pn2" using p(2) w(1) by (simp add: is_dir_def S_ISDIR_widen)
  have le: "bits_le (mode pn) (mode pn2)" "mtime pn \<le> mtime pn2"
    using w by (simp_all add: bits_le_or1)
  show ?thesis
    unfolding store_inv_def
  proof (intro conjI allI impI)
    from store_inv_root [OF inv] obtain r where r: "store ''/'' = Some r" "is_dir r" "parent r = None"
      by blast
    show "\<exists>r. (store(k0 \<mapsto> pn2)) ''/'' = Some r \<and> is_dir r \<and> parent r = None"
      using r p d2 w(3) by (cases "k0 = ''/''") auto
  next
    fix k n assume kn: "(store(k0 \<mapsto> pn2)) k = Some n" and "k \<noteq> ''/''"
    then show "parent n = Some (dirkey k)"
      using store_inv_dirkey [OF inv, of k] p w(3) by (cases "k = k0") auto
  next
    fix k n assume kn: "(store(k0 \<mapsto> pn2)) k = Some n" and d: "is_dir n"
    show "bits_le (mode n) (S_IFDIR OR 365)"
    proof (cases "k = k0")
      case True
      with kn have "n = pn2" by simp
      moreover have "bits_le (mode pn) (S_IFDIR OR 365)"
        using store_inv_bound [OF inv p] .
      ultimately show ?thesis
        using w(1) branch_mode_of_bound [of md] by (simp add: bits_le_orI)
    next
      case False
      with kn d store_inv_bound [OF inv, of k n] show ?thesis by simp
    qed
  next
    fix k n pk assume kn: "(store(k0 \<mapsto> pn2)) k = Some n" and par: "parent n = Some pk"
    show "\<exists>pn'. (store(k0 \<mapsto> pn2)) pk = Some pn' \<and> is_dir pn' \<and> mtime n \<le> mtime pn' \<and>
                 bits_le (carried n) (mode pn')"
    proof (cases "k = k0")
      case True
      with kn have n: "n = pn2" by simp
      with par w(3) have pp: "parent pn = Some pk" by simp
      with store_inv_parent [OF inv p(1)] obtain ppn where
        ppn: "store pk = Some ppn" "is_dir ppn" "mtime pn \<le> mtime ppn"
        "bits_le (carried pn) (mode ppn)"
        by blast
      from up pp ppn(1) have u: "mt \<le> mtime ppn" "bits_le (branch_mode_of md) (mode ppn)"
        by auto
      have c: "bits_le (carried pn2) (mode ppn)"
        using d2 p(2) ppn(4) u(2) w(1) by (simp add: carried_def bits_le_orI)
      have m: "mtime pn2 \<le> mtime ppn" using w(2) ppn(3) u(1) by simp
      show ?thesis
      proof (cases "pk = k0")
        case True
        with ppn(1) p(1) have "ppn = pn" by simp
        with True c m d2 le n show ?thesis
          by (auto intro: bits_le_trans)
      next
        case False
        with ppn c m n show ?thesis by auto
      qed
    next
      case False
      with kn have sk: "store k = Some n" by simp
      with store_inv_parent [OF inv _ par] obtain ppn where
        ppn: "store pk = Some ppn" "is_dir ppn" "mtime n \<le> mtime ppn"
        "bits_le (carried n) (mode ppn)"
        by blast
      show ?thesis
      proof (cases "pk = k0")
        case True
        with ppn(1) p(1) have "ppn = pn" by simp
        with True ppn d2 le show ?thesis
          by (auto intro: bits_le_trans)
      next
        case False
        with ppn show ?thesis by auto
      qed
    qed
  qed
qed

text \<open>Attaching a new node under the node the walk stands on keeps the invariant.\<close>

lemma store_inv_attach:
  assumes inv: "store_inv store"
      and absent: "store ak = None"
      and ac: "add_child parent0 ak (store(ak \<mapsto> n)) = Returns store'"
      and pn: "store parent0 = Some pn" "mtime n \<le> mtime pn" "bits_le (carried n) (mode pn)"
      and b: "is_dir n \<longrightarrow> bits_le (mode n) (S_IFDIR OR 365)"
      and dk: "dirkey ak = parent0"
  shows "store_inv store'"
proof -
  let ?s0 = "store(ak \<mapsto> n)"
  note frame = add_child_frame [OF ac]
  from pn(1) absent have ne: "parent0 \<noteq> ak" by auto
  from add_child_parent_dir [OF ac] ne pn(1) have dpn: "is_dir pn" by auto
  from store_inv_root [OF inv] obtain r where r: "store ''/'' = Some r" "is_dir r" "parent r = None"
    by blast
  with absent have nr: "ak \<noteq> ''/''" by auto
  have old: "\<exists>x'. store' k = Some x' \<and> mode x' = mode x \<and> mtime x' = mtime x \<and>
                 parent x' = parent x"
    if "store k = Some x" for k x
  proof -
    from that absent have "k \<noteq> ak" by auto
    with that frame [of k] show ?thesis by auto
  qed
  have new: "\<exists>x'. store' ak = Some x' \<and> mode x' = mode n \<and> mtime x' = mtime n \<and>
                 parent x' = Some parent0"
    using frame [of ak] by auto
  have origin: "(k = ak \<and> mode x' = mode n \<and> mtime x' = mtime n \<and> parent x' = Some parent0) \<or>
              (k \<noteq> ak \<and> (\<exists>x. store k = Some x \<and> mode x' = mode x \<and> mtime x' = mtime x \<and>
                 parent x' = parent x))"
    if "store' k = Some x'" for k x'
  proof (cases "k = ak")
    case True
    with new that show ?thesis by auto
  next
    case False
    from that frame [of k] have "?s0 k \<noteq> None" by auto
    with False obtain x where "store k = Some x" by auto
    with old [OF this] that False show ?thesis by auto
  qed
  show ?thesis
    unfolding store_inv_def
  proof (intro conjI allI impI)
    from old [OF r(1)] r show "\<exists>r. store' ''/'' = Some r \<and> is_dir r \<and> parent r = None"
      by (auto simp: is_dir_def)
  next
    fix k x' assume k: "store' k = Some x'" "k \<noteq> ''/''"
    from origin [OF k(1)] show "parent x' = Some (dirkey k)"
    proof
      assume "k = ak \<and> mode x' = mode n \<and> mtime x' = mtime n \<and> parent x' = Some parent0"
      with dk show ?thesis by simp
    next
      assume "k \<noteq> ak \<and> (\<exists>x. store k = Some x \<and> mode x' = mode x \<and> mtime x' = mtime x \<and>
                 parent x' = parent x)"
      then obtain x where "store k = Some x" "parent x' = parent x" by blast
      with store_inv_dirkey [OF inv this(1) k(2)] show ?thesis by simp
    qed
  next
    fix k x' assume k: "store' k = Some x'" "is_dir x'"
    from origin [OF k(1)] show "bits_le (mode x') (S_IFDIR OR 365)"
    proof
      assume "k = ak \<and> mode x' = mode n \<and> mtime x' = mtime n \<and> parent x' = Some parent0"
      with b k(2) show ?thesis by (simp add: is_dir_def)
    next
      assume "k \<noteq> ak \<and> (\<exists>x. store k = Some x \<and> mode x' = mode x \<and> mtime x' = mtime x \<and>
                 parent x' = parent x)"
      then obtain x where x: "store k = Some x" "mode x' = mode x" by blast
      with k(2) have "is_dir x" by (simp add: is_dir_def)
      from store_inv_bound [OF inv x(1) this] x(2) show ?thesis by simp
    qed
  next
    fix k x' pk assume k: "store' k = Some x'" "parent x' = Some pk"
    from origin [OF k(1)]
    show "\<exists>pn'. store' pk = Some pn' \<and> is_dir pn' \<and> mtime x' \<le> mtime pn' \<and>
                 bits_le (carried x') (mode pn')"
    proof
      assume a: "k = ak \<and> mode x' = mode n \<and> mtime x' = mtime n \<and> parent x' = Some parent0"
      with k(2) have "pk = parent0" by simp
      moreover from old [OF pn(1)] obtain p' where "store' parent0 = Some p'" "mode p' = mode pn"
        "mtime p' = mtime pn" by blast
      ultimately show ?thesis
        using a pn(2,3) dpn carried_mode [of x' n] by (auto simp: is_dir_def)
    next
      assume "k \<noteq> ak \<and> (\<exists>x. store k = Some x \<and> mode x' = mode x \<and> mtime x' = mtime x \<and>
                 parent x' = parent x)"
      then obtain x where x: "store k = Some x" "mode x' = mode x" "mtime x' = mtime x"
        "parent x' = parent x" by blast
      with k(2) have "parent x = Some pk" by simp
      from store_inv_parent [OF inv x(1) this] obtain ppn where
        ppn: "store pk = Some ppn" "is_dir ppn" "mtime x \<le> mtime ppn" "bits_le (carried x) (mode ppn)"
        by blast
      from old [OF ppn(1)] obtain p' where "store' pk = Some p'" "mode p' = mode ppn"
        "mtime p' = mtime ppn" by blast
      with ppn x carried_mode [of x' x] show ?thesis by (auto simp: is_dir_def)
    qed
  qed
qed

text \<open>One turn of the loop of \<open>insert_leaf_node\<close>, with its local values named.\<close>

lemma key_of_step: "pre \<noteq> [] \<Longrightarrow> key_of (pre @ frag @ ''/'') = pre @ frag"
  by (cases pre) (auto simp: key_of_def butlast_append)

lemma loop_unfold:
  assumes pn: "g_nodes_by_name st parent0 = Some pn"
  and pn1_def: "pn1 = (if mtime pn < mt then pn\<lparr>mtime := mt\<rparr> else pn)"
  and pn2_def: "pn2 = pn1\<lparr>mode := mode pn1 OR bm\<rparr>"
  and st1_def: "st1 = st\<lparr>g_nodes_by_name := (g_nodes_by_name st)(parent0 \<mapsto> pn2)\<rparr>"
  and frag_def: "frag = takeWhile (\<lambda>c. c \<noteq> CHR ''/'') q"
  and r_def: "r = dropWhile (\<lambda>c. c \<noteq> CHR ''/'') q"
  and ak_def: "ak = pre @ frag"
  shows "insert_leaf_node_loop sy ix sz mt bm lm pre q parent0 st =
    (if r = []
             then (case g_nodes_by_name st1 ak of
                     Some existing \<Rightarrow> Returns (0, st1)
                   | None \<Rightarrow>
                       (let n = new_Node frag sy ix sz mt lm
                        in case add_child parent0 ak
                                  ((g_nodes_by_name st1)(ak \<mapsto> n)) of
                             Aborts \<Rightarrow> Aborts
                           | Hangs \<Rightarrow> Hangs
                           | Returns store \<Rightarrow>
                               if \<not> int (length (g_nodes_by_index st1)) \<le> ix then Aborts
                               else Returns (0,
                                 st1\<lparr>g_nodes_by_name := store,
                                     g_block_count := g_block_count st1 + get_block_count n + 1,
                                     g_nodes_by_index :=
                                       g_nodes_by_index st1 @
                                       replicate (nat ix - length (g_nodes_by_index st1)) None @
                                       [Some ak]\<rparr>)))
             else (case g_nodes_by_name st1 ak of
                     Some n \<Rightarrow>
                       if \<not> is_dir n then Returns (0, st1)
                       else insert_leaf_node_loop sy ix sz mt bm lm (pre @ frag @ ''/'') (tl r) ak st1
                   | None \<Rightarrow>
                       (let n = new_Node frag [] (- 1) 0 mt bm
                        in case add_child parent0 ak
                                  ((g_nodes_by_name st1)(ak \<mapsto> n)) of
                             Aborts \<Rightarrow> Aborts
                           | Hangs \<Rightarrow> Hangs
                           | Returns store \<Rightarrow>
                               insert_leaf_node_loop sy ix sz mt bm lm (pre @ frag @ ''/'') (tl r) ak
                                 (st1\<lparr>g_nodes_by_name := store,
                                      g_block_count := g_block_count st1 + 1\<rparr>))))"
  unfolding ak_def r_def frag_def st1_def pn2_def pn1_def
  by (subst insert_leaf_node_loop.simps) (simp only: pn option.case Let_def)

text \<open>
  The walk keeps the invariant, and returns 0 when it returns. It starts at a directory
  whose own parent, if it has one, has been widened for this leaf already.
\<close>

lemma insert_leaf_node_loop_inv:
  assumes "insert_leaf_node_loop sy ix sz mt bm lm pre q parent0 st = Returns (rc, st')"
      and "bm = branch_mode_of md" "lm = leaf_mode_of md sy"
      and "tree_inv st"
      and "pre \<noteq> []" "last pre = CHR ''/''" "parent0 = key_of pre"
      and "\<exists>pn. g_nodes_by_name st parent0 = Some pn \<and> is_dir pn \<and>
             (\<forall>pp. parent pn = Some pp \<longrightarrow>
                (\<exists>ppn. g_nodes_by_name st pp = Some ppn \<and> mt \<le> mtime ppn \<and>
                       bits_le bm (mode ppn)))"
  shows "tree_inv st' \<and> rc = 0"
  using assms
proof (induction sy ix sz mt bm lm pre q parent0 st rule: insert_leaf_node_loop.induct)
  case (1 sy ix sz mt bm lm pre q parent0 st)
  note run = "1.prems"(1) and bm = "1.prems"(2) and lm = "1.prems"(3) and inv = "1.prems"(4)
    and pre = "1.prems"(5,6) and par = "1.prems"(7)
  from "1.prems"(8) obtain pn where pn: "g_nodes_by_name st parent0 = Some pn" "is_dir pn"
    and up: "\<forall>pp. parent pn = Some pp \<longrightarrow>
                (\<exists>ppn. g_nodes_by_name st pp = Some ppn \<and> mt \<le> mtime ppn \<and>
                       bits_le (branch_mode_of md) (mode ppn))"
    unfolding bm by blast
  define pn1 where "pn1 = (if mtime pn < mt then pn\<lparr>mtime := mt\<rparr> else pn)"
  define pn2 where "pn2 = pn1\<lparr>mode := mode pn1 OR bm\<rparr>"
  define st1 where "st1 = st\<lparr>g_nodes_by_name := (g_nodes_by_name st)(parent0 \<mapsto> pn2)\<rparr>"
  define frag where "frag = takeWhile (\<lambda>c. c \<noteq> CHR ''/'') q"
  define r where "r = dropWhile (\<lambda>c. c \<noteq> CHR ''/'') q"
  define ak where "ak = pre @ frag"
  have w: "mode pn2 = mode pn OR branch_mode_of md" "mtime pn2 = max (mtime pn) mt"
    "parent pn2 = parent pn"
    by (auto simp: pn2_def pn1_def bm)
  from inv have root: "g_root_node st = Some ''/''" and sinv: "store_inv (g_nodes_by_name st)"
    by (simp_all add: tree_inv_def)
  have sinv1: "store_inv (g_nodes_by_name st1)"
    unfolding st1_def using store_inv_widen [OF sinv pn up w] by simp
  have inv1: "tree_inv st1"
    using sinv1 root by (simp add: tree_inv_def st1_def)
  have p2: "g_nodes_by_name st1 parent0 = Some pn2" by (simp add: st1_def)
  have d2: "is_dir pn2" using pn(2) w(1) by (simp add: is_dir_def S_ISDIR_widen)
  have ge: "mt \<le> mtime pn2" "bits_le (branch_mode_of md) (mode pn2)"
    using w by (simp_all add: bits_le_or2)
  have dk: "dirkey ak = parent0"
    unfolding ak_def frag_def par using pre fragment_no_slash by (intro dirkey_append)
  note unfold = loop_unfold [OF pn(1) pn1_def pn2_def st1_def frag_def r_def ak_def, of sy ix sz lm]
  have pre': "pre @ frag @ ''/'' \<noteq> []" "last (pre @ frag @ ''/'') = CHR ''/''"
    "ak = key_of (pre @ frag @ ''/'')"
    using pre(1) by (simp_all add: key_of_step ak_def)
  show ?case
  proof (cases "g_nodes_by_name st1 ak")
    case (Some n)
    show ?thesis
    proof (cases "r = [] \<or> \<not> is_dir n")
      case True
      with run Some have "st' = st1" "rc = 0"
        unfolding unfold by (auto split: if_splits)
      with inv1 show ?thesis by simp
    next
      case False
      then have nd: "r \<noteq> []" "\<not> \<not> is_dir n" by auto
      with run Some have rec:
        "insert_leaf_node_loop sy ix sz mt bm lm (pre @ frag @ ''/'') (tl r) ak st1 = Returns (rc, st')"
        unfolding unfold by simp
      have up': "\<exists>pn'. g_nodes_by_name st1 ak = Some pn' \<and> is_dir pn' \<and>
             (\<forall>pp. parent pn' = Some pp \<longrightarrow>
                (\<exists>ppn. g_nodes_by_name st1 pp = Some ppn \<and> mt \<le> mtime ppn \<and>
                       bits_le bm (mode ppn)))"
      proof (cases "ak = ''/''")
        case True
        with store_inv_root [OF sinv1] Some have "parent n = None" by auto
        with Some nd show ?thesis by auto
      next
        case False
        from store_inv_dirkey [OF sinv1 Some False] dk have "parent n = Some parent0" by simp
        with Some nd p2 ge show ?thesis unfolding bm by auto
      qed
      from "1.IH"(2) [OF pn(1) pn1_def pn2_def st1_def frag_def r_def ak_def refl nd(1) Some nd(2)
          rec bm lm inv1 pre' up']
      show ?thesis .
    qed
  next
    case None
    from p2 None have ne: "parent0 \<noteq> ak" by auto
    show ?thesis
    proof (cases "r = []")
      case True
      define n where "n = new_Node frag sy ix sz mt lm"
      from run None True obtain store where
        ac: "add_child parent0 ak ((g_nodes_by_name st1)(ak \<mapsto> n)) = Returns store"
        and res: "rc = 0" "g_nodes_by_name st' = store" "g_root_node st' = g_root_node st1"
        unfolding unfold n_def
        by (auto simp: Let_def split: outcome.splits if_splits)
      have nd: "\<not> is_dir n"
        by (simp add: n_def new_Node_def is_dir_def lm leaf_mode_of_not_dir)
      have c: "bits_le (carried n) (mode pn2)"
        using nd ge(2) propagated_bits_le_branch [of md]
        by (auto simp: carried_def n_def new_Node_def lm propagated_bits_leaf intro: bits_le_trans)
      have m: "mtime n \<le> mtime pn2" using ge(1) by (simp add: n_def new_Node_def)
      from store_inv_attach [OF sinv1 None ac p2 m c _ dk] nd
      have "store_inv store" by simp
      with res root show ?thesis by (simp add: tree_inv_def st1_def)
    next
      case False
      define n where "n = new_Node frag [] (- 1) 0 mt bm"
      define st2 where "st2 = (\<lambda>store. st1\<lparr>g_nodes_by_name := store,
                                      g_block_count := g_block_count st1 + 1\<rparr>)"
      from run None False obtain store where
        ac: "add_child parent0 ak ((g_nodes_by_name st1)(ak \<mapsto> n)) = Returns store"
        and rec: "insert_leaf_node_loop sy ix sz mt bm lm (pre @ frag @ ''/'') (tl r) ak
                    (st1\<lparr>g_nodes_by_name := store, g_block_count := g_block_count st1 + 1\<rparr>) =
                  Returns (rc, st')"
        unfolding unfold n_def
        by (auto simp: Let_def split: outcome.splits)
      have isd: "is_dir n"
        by (simp add: n_def new_Node_def is_dir_def S_ISDIR_def bm branch_mode_of_type)
      have c: "bits_le (carried n) (mode pn2)"
        using isd ge(2) by (simp add: carried_def n_def new_Node_def bm)
      have m: "mtime n \<le> mtime pn2" using ge(1) by (simp add: n_def new_Node_def)
      have b: "is_dir n \<longrightarrow> bits_le (mode n) (S_IFDIR OR 365)"
        by (simp add: n_def new_Node_def bm branch_mode_of_bound)
      from store_inv_attach [OF sinv1 None ac p2 m c b dk]
      have sinv2: "store_inv store" .
      have inv2: "tree_inv (st1\<lparr>g_nodes_by_name := store, g_block_count := g_block_count st1 + 1\<rparr>)"
        using sinv2 root by (simp add: tree_inv_def st1_def)
      note frame = add_child_frame [OF ac]
      from frame [of ak] obtain n' where n': "store ak = Some n'" "mode n' = mode n"
        "parent n' = Some parent0"
        by auto
      from frame [of parent0] ne p2 obtain p' where p': "store parent0 = Some p'"
        "mode p' = mode pn2" "mtime p' = mtime pn2"
        by auto
      have up': "\<exists>pn'. g_nodes_by_name (st1\<lparr>g_nodes_by_name := store,
                       g_block_count := g_block_count st1 + 1\<rparr>) ak = Some pn' \<and> is_dir pn' \<and>
             (\<forall>pp. parent pn' = Some pp \<longrightarrow>
                (\<exists>ppn. g_nodes_by_name (st1\<lparr>g_nodes_by_name := store,
                       g_block_count := g_block_count st1 + 1\<rparr>) pp = Some ppn \<and> mt \<le> mtime ppn \<and>
                       bits_le bm (mode ppn)))"
        using n' p' isd ge unfolding bm by (auto simp: is_dir_def)
      from "1.IH"(1) [OF pn(1) pn1_def pn2_def st1_def frag_def r_def ak_def refl False None n_def ac
          rec bm lm inv2 pre' up']
      show ?thesis .
    qed
  qed
qed

text \<open>So do \<open>insert_leaf_node\<close>, \<open>insert_leaf\<close>, \<open>build_tree\<close> and \<open>post_initialize_sync\<close>.\<close>

lemma insert_leaf_node_inv:
  assumes run: "insert_leaf_node pathname sy ix sz mt md st = Returns (rc, st')"
      and inv: "tree_inv st"
  shows "tree_inv st'"
proof (cases "ix < 0 \<or> pathname = [] \<or> hd pathname \<noteq> CHR ''/''")
  case True
  with run inv show ?thesis
    by (auto simp: insert_leaf_node_def split: if_splits)
next
  case False
  from inv have root: "g_root_node st = Some ''/''" and s: "store_inv (g_nodes_by_name st)"
    by (simp_all add: tree_inv_def)
  from False run root
  have loop: "insert_leaf_node_loop sy ix sz mt (branch_mode_of md) (leaf_mode_of md sy)
                ''/'' (tl pathname) ''/'' st = Returns (rc, st')"
    by (simp add: insert_leaf_node_def)
  from store_inv_root [OF s]
  have up: "\<exists>pn. g_nodes_by_name st ''/'' = Some pn \<and> is_dir pn \<and>
              (\<forall>pp. parent pn = Some pp \<longrightarrow>
                 (\<exists>ppn. g_nodes_by_name st pp = Some ppn \<and> mt \<le> mtime ppn \<and>
                        bits_le (branch_mode_of md) (mode ppn)))"
    by auto
  have "tree_inv st' \<and> rc = 0"
    by (rule insert_leaf_node_loop_inv [OF loop refl refl inv _ _ _ up])
       (simp_all add: key_of_def)
  then show ?thesis ..
qed

lemma insert_leaf_size_loop_tree:
  "insert_leaf_size_loop a a_size st = Returns (res, a', st') \<Longrightarrow>
     g_nodes_by_name st' = g_nodes_by_name st \<and> g_root_node st' = g_root_node st"
proof (induction a a_size st rule: insert_leaf_size_loop.induct)
  case (1 a a_size st)
  obtain x a1 where rd: "archive_read_data a (nat SIDE_BUFFER_SIZE) = (x, a1)"
    by (cases "archive_read_data a (nat SIDE_BUFFER_SIZE)")
  show ?case
  proof (cases x)
    case ReadError
    with "1.prems" rd show ?thesis
      by (simp add: insert_leaf_size_loop.simps [of a a_size st])
  next
    case (Data bs)
    show ?thesis
    proof (cases "length bs = 0 \<or> int (length bs) > SIDE_BUFFER_SIZE")
      case True
      with "1.prems" rd Data show ?thesis
        by (auto simp: insert_leaf_size_loop.simps [of a a_size st] split: if_splits)
    next
      case False
      then have f: "length bs \<noteq> 0" "\<not> int (length bs) > SIDE_BUFFER_SIZE" by auto
      from "1.prems" rd Data f
      have "insert_leaf_size_loop a1 (a_size + int (length bs))
                (st\<lparr>g_side_buffer_data := (g_side_buffer_data st)[1 :=
                       bs @ drop (length bs) (g_side_buffer_data st ! 1)]\<rparr>) = Returns (res, a', st')"
        by (simp add: insert_leaf_size_loop.simps [of a a_size st])
      from "1.IH" [OF rd [symmetric] Data f this] show ?thesis by simp
    qed
  qed
qed

lemma insert_leaf_inv:
  assumes run: "insert_leaf a e ix st = Returns (rc, a', st')"
      and inv: "tree_inv st"
  shows "tree_inv st'"
proof -
  have sz: "tree_inv s1"
    if "insert_leaf_size_loop a (entry_size e) st = Returns (res, a1, s1)" for res a1 s1
    using insert_leaf_size_loop_tree [OF that] inv by (simp add: tree_inv_def)
  from run inv show ?thesis
    by (auto simp: insert_leaf_def Let_def
             split: if_splits outcome.splits option.splits prod.splits
             dest!: sz dest: insert_leaf_node_inv)
qed

lemma build_tree_header_tree:
  "build_tree_header first st = Returns (x, s1) \<Longrightarrow>
     g_nodes_by_name s1 = g_nodes_by_name st \<and> g_root_node s1 = g_root_node st"
  by (auto simp: build_tree_header_def Let_def split: if_splits option.splits prod.splits)

lemma build_tree_loop_inv:
  "build_tree_loop first st = Returns (rc, st') \<Longrightarrow> tree_inv st \<Longrightarrow> tree_inv st'"
proof (induction first st rule: build_tree_loop.induct)
  case (1 first st)
  note IH = "1.IH" [folded build_tree_header_def]
  note run = "1.prems"(1) [unfolded build_tree_loop.simps [of first st], folded build_tree_header_def]
  from run obtain x s1 where h: "build_tree_header first st = Returns (x, s1)"
    by (cases "build_tree_header first st") auto
  from build_tree_header_tree [OF h] "1.prems"(2) have inv1: "tree_inv s1"
    by (simp add: tree_inv_def)
  show ?case
  proof (cases x)
    case (Some rc')
    with run h inv1 show ?thesis by simp
  next
    case None
    with run h obtain e where e: "g_initialize_archive_entry s1 = Some e"
      by (cases "g_initialize_archive_entry s1") auto
    show ?thesis
    proof (cases "S_ISDIR (entry_mode e)")
      case True
      with run h None e have "build_tree_loop False s1 = Returns (rc, st')" by simp
      from IH(1) [OF h [unfolded None] refl refl e True this inv1] show ?thesis .
    next
      case False
      with run h None e obtain a where a: "g_initialize_archive s1 = Some a"
        by (cases "g_initialize_archive s1") auto
      from run h None e False a obtain rc1 a1 s2 where
        il: "insert_leaf a e (g_initialize_index_within_archive s1) s1 = Returns (rc1, a1, s2)"
        by (cases "insert_leaf a e (g_initialize_index_within_archive s1) s1") auto
      from insert_leaf_inv [OF il inv1]
      have inv2: "tree_inv (s2\<lparr>g_initialize_archive := Some a1\<rparr>)"
        by (simp add: tree_inv_def)
      show ?thesis
      proof (cases "rc1 = 0")
        case True
        with run h None e False a il
        have "build_tree_loop False (s2\<lparr>g_initialize_archive := Some a1\<rparr>) = Returns (rc, st')"
          by simp
        from IH(2) [OF h [unfolded None] refl refl e False a il refl refl _ this inv2] True
        show ?thesis by simp
      next
        case f: False
        with run h None e False a il inv2 show ?thesis by auto
      qed
    qed
  qed
qed

lemma insert_root_node_inv:
  "g_nodes_by_name st = Map.empty \<Longrightarrow> tree_inv (insert_root_node st)"
  by (simp add: tree_inv_def insert_root_node_def store_inv_def new_Node_def is_dir_def
                S_ISDIR_def S_IFDIR_def S_IFMT_def bits_le_def)

lemma post_initialize_sync_inv:
  assumes "post_initialize_sync st = Returns (rc, st')"
      and "g_root_node st = None" "g_nodes_by_name st = Map.empty"
  shows "tree_inv st'"
proof -
  from assms(1,2) obtain s1 where
    b: "build_tree (insert_root_node st) = Returns (rc, s1)"
    and s: "g_nodes_by_name st' = g_nodes_by_name s1" "g_root_node st' = g_root_node s1"
    by (auto simp: post_initialize_sync_def split: outcome.splits)
  from b have "tree_inv s1"
    using insert_root_node_inv [OF assms(3)]
    by (auto simp: build_tree_def split: if_splits dest: build_tree_loop_inv)
  with s show ?thesis by (simp add: tree_inv_def)
qed

text \<open>Along the parent pointers, what is handed upwards arrives.\<close>

lemma descends_carried:
  assumes inv: "store_inv store"
  shows "descends store k d \<Longrightarrow> store k = Some n \<Longrightarrow>
           \<exists>dn. store d = Some dn \<and> is_dir dn \<and> bits_le (carried n) (mode dn)"
proof (induction arbitrary: n rule: descends.induct)
  case (child k n' d)
  with store_inv_parent [OF inv, of k n d] show ?case by auto
next
  case (deeper k n' p d)
  then have n: "n' = n" by simp
  from store_inv_parent [OF inv deeper(1,2)] obtain pn where
    pn: "store p = Some pn" "is_dir pn" "bits_le (carried n') (mode pn)"
    by blast
  from deeper.IH [OF pn(1)] obtain dn where
    dn: "store d = Some dn" "is_dir dn" "bits_le (carried pn) (mode dn)"
    by blast
  from pn(2) have "carried pn = mode pn" by (simp add: carried_def)
  with pn(3) dn(3) n have "bits_le (carried n) (mode dn)"
    by (auto intro: bits_le_trans)
  with dn show ?case by blast
qed

text \<open>The bootstrap of the two entries named \<open>d/a\<close>, step by step.\<close>

lemma normalize_d_a:
  "entry_pathname_utf8 e = Some ''d/a'' \<Longrightarrow> g_archive_innername st = None \<Longrightarrow>
     normalize_pathname e st = ''/d/a''"
  by (simp add: normalize_pathname_def valid_pathname_def valid_pathname_loop.simps Let_def)

lemma insert_first:
  assumes "g_root_node st = Some ''/''" "g_nodes_by_name st = root_store" "g_nodes_by_index st = []"
  shows "insert_leaf_node ''/d/a'' [] 0 3 5 33024 st =
           Returns (0, st\<lparr>g_nodes_by_name := one_leaf_store, g_block_count := g_block_count st + 3,
                           g_nodes_by_index := [Some ''/d/a'']\<rparr>)"
proof -
  have e: "[''/'' \<mapsto> r, ''/d/a'' \<mapsto> l, ''/d'' \<mapsto> d] = [''/'' \<mapsto> r, ''/d'' \<mapsto> d, ''/d/a'' \<mapsto> l]"
    for r d l :: Node
    by (rule ext) simp
  from assms show ?thesis
    by (simp add: insert_leaf_node_def insert_leaf_node_loop.simps root_store_def new_Node_def
         Let_def add_child_def is_dir_def S_ISDIR_def S_IFDIR_def S_IFMT_def branch_mode_of_def
         leaf_mode_of_def S_IFREG_def get_block_count_def int64_wrap_def block_size_def one_leaf_store_def e)
qed

lemma insert_second:
  assumes "g_root_node st = Some ''/''" "g_nodes_by_name st = one_leaf_store"
  shows "insert_leaf_node ''/d/a'' [] 1 3 9 33279 st =
           Returns (0, st\<lparr>g_nodes_by_name := g_nodes_by_name collision_tree\<rparr>)"
proof -
  have e: "[''/'' \<mapsto> r, ''/d/a'' \<mapsto> l, ''/d'' \<mapsto> d] = [''/'' \<mapsto> r, ''/d'' \<mapsto> d, ''/d/a'' \<mapsto> l]"
    for r d l :: Node
    by (rule ext) simp
  have e2: "[''/d/a'' \<mapsto> l, ''/'' \<mapsto> r, ''/d'' \<mapsto> d] = [''/'' \<mapsto> r, ''/d'' \<mapsto> d, ''/d/a'' \<mapsto> l]"
    for r d l :: Node
    by (rule ext) simp
  from assms show ?thesis
    apply (simp add: insert_leaf_node_def insert_leaf_node_loop.simps new_Node_def
         Let_def add_child_def is_dir_def S_ISDIR_def S_IFDIR_def S_IFMT_def branch_mode_of_def
         leaf_mode_of_def S_IFREG_def get_block_count_def int64_wrap_def block_size_def one_leaf_store_def e e2
         collision_tree_def)
    done
qed

lemma insert_leaf_first:
  assumes "g_root_node st = Some ''/''" "g_nodes_by_name st = root_store" "g_nodes_by_index st = []"
      and "g_archive_innername st = None"
  shows "insert_leaf a first_entry 0 st =
           Returns (0, a, st\<lparr>g_nodes_by_name := one_leaf_store, g_block_count := g_block_count st + 3,
                              g_nodes_by_index := [Some ''/d/a'']\<rparr>)"
proof -
  have n: "normalize_pathname first_entry st = ''/d/a''"
    by (rule normalize_d_a) (simp_all add: first_entry_def assms)
  have m: "entry_mode first_entry = 33024" "entry_size_is_set first_entry"
    "entry_size first_entry = 3" "entry_mtime first_entry = 5"
    by (simp_all add: first_entry_def)
  show ?thesis
    by (simp add: insert_leaf_def n m Let_def insert_first [OF assms(1-3)]
          S_ISBLK_def S_ISCHR_def S_ISFIFO_def S_ISSOCK_def S_ISLNK_def S_IFMT_def
          S_IFBLK_def S_IFCHR_def S_IFIFO_def S_IFSOCK_def S_IFLNK_def)
qed

lemma insert_leaf_second:
  assumes "g_root_node st = Some ''/''" "g_nodes_by_name st = one_leaf_store"
      and "g_archive_innername st = None"
  shows "insert_leaf a second_entry 1 st =
           Returns (0, a, st\<lparr>g_nodes_by_name := g_nodes_by_name collision_tree\<rparr>)"
proof -
  have n: "normalize_pathname second_entry st = ''/d/a''"
    by (rule normalize_d_a) (simp_all add: first_entry_def second_entry_def assms)
  have m: "entry_mode second_entry = 33279" "entry_size_is_set second_entry"
    "entry_size second_entry = 3" "entry_mtime second_entry = 9"
    by (simp_all add: first_entry_def second_entry_def)
  show ?thesis
    by (simp add: insert_leaf_def n m Let_def insert_second [OF assms(1,2)]
          S_ISBLK_def S_ISCHR_def S_ISFIFO_def S_ISSOCK_def S_ISLNK_def S_IFMT_def
          S_IFBLK_def S_IFCHR_def S_IFIFO_def S_IFSOCK_def S_IFLNK_def)
qed

lemma collision_bootstrap_run:
  "post_initialize_sync collision_bootstrap = Returns (0, collision_tree)"
proof -
  define a where "a = \<lparr>headers = [(ARCHIVE_OK, Some second_entry)], reads = [], asked = []\<rparr>"
  define s0 where "s0 = insert_root_node collision_bootstrap"
  have s0: "g_root_node s0 = Some ''/''" "g_nodes_by_name s0 = root_store" "g_nodes_by_index s0 = []"
    "g_archive_innername s0 = None"
    and i0: "g_initialize_archive_entry s0 = Some first_entry"
    "g_initialize_archive s0 = Some a"
    "g_initialize_index_within_archive s0 = 0"
    by (simp_all add: s0_def insert_root_node_def collision_bootstrap_def example_globals_def
          root_store_def a_def)
  have d: "\<not> S_ISDIR (entry_mode first_entry)" "\<not> S_ISDIR (entry_mode second_entry)"
    by (simp_all add: first_entry_def second_entry_def S_ISDIR_def S_IFMT_def S_IFDIR_def)
  define s1 where "s1 = s0\<lparr>g_nodes_by_name := one_leaf_store, g_block_count := g_block_count s0 + 3,
                              g_nodes_by_index := [Some ''/d/a''], g_initialize_archive := Some a\<rparr>"
  have r0: "build_tree_loop True s0 = build_tree_loop False s1"
    by (subst build_tree_loop.simps)
       (simp add: i0 d insert_leaf_first [OF s0] s1_def)
  define a' where "a' = \<lparr>headers = [], reads = [], asked = []\<rparr>"
  have h: "archive_read_next_header a = (ARCHIVE_OK, Some second_entry, a')"
    by (simp add: archive_read_next_header_def a_def a'_def)
  define s2 where "s2 = s1\<lparr>g_initialize_archive := Some a',
                              g_initialize_archive_entry := Some second_entry,
                              g_initialize_index_within_archive := 1\<rparr>"
  have s2: "g_root_node s2 = Some ''/''" "g_nodes_by_name s2 = one_leaf_store"
    "g_archive_innername s2 = None"
    by (simp_all add: s2_def s1_def s0)
  have i1: "g_initialize_archive s1 = Some a" "g_initialize_index_within_archive s1 = 0"
    by (simp_all add: s1_def i0)
  define s3 where "s3 = s1\<lparr>g_initialize_archive_entry := Some second_entry,
                              g_initialize_index_within_archive := 1,
                              g_nodes_by_name := g_nodes_by_name collision_tree,
                              g_initialize_archive := Some a'\<rparr>"
  have r1: "build_tree_loop False s1 = build_tree_loop False s3"
    apply (subst build_tree_loop.simps)
    apply (simp add: i1 h Let_def ARCHIVE_OK_def ARCHIVE_EOF_def ARCHIVE_WARN_def d)
    apply (simp add: s2_def [symmetric])
    apply (simp add: insert_leaf_second [OF s2])
    apply (simp add: s3_def s2_def)
    done
  have h': "archive_read_next_header a' = (ARCHIVE_EOF, None, a')"
    by (simp add: archive_read_next_header_def a'_def)
  have i3: "g_initialize_archive s3 = Some a'"
    by (simp add: s3_def s2_def)
  have r2: "build_tree_loop False s3 =
              Returns (0, s3\<lparr>g_initialize_archive_entry := None,
                             g_initialize_index_within_archive := 2\<rparr>)"
    apply (subst build_tree_loop.simps)
    apply (simp add: i3 h' Let_def)
    apply (simp add: s3_def s2_def)
    done
  have fin: "s3\<lparr>g_initialize_archive := None, g_initialize_archive_entry := None,
                g_initialize_index_within_archive := - 1\<rparr> = collision_tree"
    by (simp add: s3_def s2_def s1_def s0_def insert_root_node_def collision_bootstrap_def
          collision_tree_def example_globals_def)
  have "build_tree s0 = Returns (0, s3\<lparr>g_initialize_archive_entry := None,
                             g_initialize_index_within_archive := 2\<rparr>)"
    by (simp add: build_tree_def i0 r0 r1 r2)
  then show ?thesis
    by (simp add: post_initialize_sync_def s0_def [symmetric] fin [symmetric])
       (simp add: collision_bootstrap_def example_globals_def)
qed

lemma descends_mtime:
  assumes inv: "store_inv store"
  shows "descends store k d \<Longrightarrow> store k = Some n \<Longrightarrow>
           \<exists>dn. store d = Some dn \<and> mtime n \<le> mtime dn"
proof (induction arbitrary: n rule: descends.induct)
  case (child k n' d)
  with store_inv_parent [OF inv, of k n d] show ?case by auto
next
  case (deeper k n' p d)
  then have n: "n' = n" by simp
  from store_inv_parent [OF inv deeper(1,2)] obtain pn where
    pn: "store p = Some pn" "mtime n' \<le> mtime pn"
    by blast
  from deeper.IH [OF pn(1)] obtain dn where
    dn: "store d = Some dn" "mtime pn \<le> mtime dn"
    by blast
  with pn n show ?case by auto
qed

text \<open>
  What every bootstrap from an empty tree keeps, for every directory \<open>D\<close> of the tree:
  every node below \<open>D\<close> has an mtime no later than \<open>D\<close>'s; \<open>D\<close>'s mode has no bit
  outside the directory type and 0555; and it holds, for every leaf below \<open>D\<close>, the leaf's
  read and execute bits with each read bit mirrored into the execute position.
\<close>

lemma bootstrap_directory_invariant:
  assumes run: "post_initialize_sync st0 = Returns (rc, st)"
      and fresh: "g_root_node st0 = None" "g_nodes_by_name st0 = Map.empty"
      and d: "g_nodes_by_name st d = Some dn" "is_dir dn"
  shows "(\<forall>k n. descends (g_nodes_by_name st) k d \<longrightarrow> g_nodes_by_name st k = Some n \<longrightarrow>
            mtime n \<le> mtime dn) \<and>
         bits_le (mode dn) (S_IFDIR OR 365) \<and>
         (\<forall>l ln. descends (g_nodes_by_name st) l d \<longrightarrow> g_nodes_by_name st l = Some ln \<longrightarrow>
            \<not> is_dir ln \<longrightarrow> bits_le (propagated_bits (mode ln)) (mode dn))"
proof -
  from post_initialize_sync_inv [OF run fresh]
  have inv: "store_inv (g_nodes_by_name st)"
    by (simp add: tree_inv_def)
  have m: "mtime n \<le> mtime dn"
    if "descends (g_nodes_by_name st) k d" "g_nodes_by_name st k = Some n" for k n
    using descends_mtime [OF inv that] d(1) by auto
  have b: "bits_le (propagated_bits (mode ln)) (mode dn)"
    if "descends (g_nodes_by_name st) l d" "g_nodes_by_name st l = Some ln" "\<not> is_dir ln" for l ln
    using descends_carried [OF inv that(1,2)] d(1) that(3) by (auto simp: carried_def)
  from m b store_inv_bound [OF inv d] show ?thesis by blast
qed

lemma collision_tree_leaf:
  "(\<exists>l ln. descends (g_nodes_by_name collision_tree) l ''/d'' \<and>
           g_nodes_by_name collision_tree l = Some ln \<and> \<not> is_dir ln \<and> P (mode ln) (mtime ln)) =
   P 33024 5"
proof
  assume "\<exists>l ln. descends (g_nodes_by_name collision_tree) l ''/d'' \<and>
           g_nodes_by_name collision_tree l = Some ln \<and> \<not> is_dir ln \<and> P (mode ln) (mtime ln)"
  then obtain l ln where l: "g_nodes_by_name collision_tree l = Some ln" "\<not> is_dir ln"
    "P (mode ln) (mtime ln)"
    by blast
  from l(1,2) have "mode ln = 33024 \<and> mtime ln = 5"
    by (auto simp: collision_tree_def is_dir_def S_ISDIR_def S_IFMT_def S_IFDIR_def
             split: if_splits)
  with l(3) show "P 33024 5" by simp
next
  assume p: "P 33024 5"
  define ln where "ln = the (g_nodes_by_name collision_tree ''/d/a'')"
  have l: "g_nodes_by_name collision_tree ''/d/a'' = Some ln" "parent ln = Some ''/d''"
    "\<not> is_dir ln" "mode ln = 33024" "mtime ln = 5"
    by (simp_all add: ln_def collision_tree_def is_dir_def S_ISDIR_def S_IFMT_def S_IFDIR_def)
  from descends.child [of "g_nodes_by_name collision_tree" "''/d/a''" ln "''/d''", OF l(1,2)] l p
  show "\<exists>l ln. descends (g_nodes_by_name collision_tree) l ''/d'' \<and>
           g_nodes_by_name collision_tree l = Some ln \<and> \<not> is_dir ln \<and> P (mode ln) (mtime ln)"
    by (intro exI [of _ "''/d/a''"] exI [of _ ln]) simp
qed

lemma collision_tree_union:
  "union_of_leaves (g_nodes_by_name collision_tree) ''/d'' m = (m = 16704)"
proof -
  have p: "propagated_bits 33024 = 320"
    by (simp add: propagated_bits_def)
  have e: "(16704 :: 32 word) = S_IFDIR OR 320"
    by (simp add: S_IFDIR_def)
  have "union_of_leaves (g_nodes_by_name collision_tree) ''/d'' m =
          (\<forall>i. bit m i = (bit S_IFDIR i \<or> bit (320 :: 32 word) i))"
    unfolding union_of_leaves_def
    using collision_tree_leaf [of "\<lambda>md mt. bit (propagated_bits md) i" for i]
    by (simp add: p)
  also have "\<dots> = (\<forall>i. bit m i = bit (S_IFDIR OR 320 :: 32 word) i)"
    by (simp only: bit_or_iff)
  also have "\<dots> = (m = S_IFDIR OR 320)"
    using bit_eq_iff [of m "S_IFDIR OR 320"] by blast
  also have "\<dots> = (m = 16704)"
    unfolding e ..
  finally show ?thesis .
qed

text \<open>
  C7. The bootstrap of an archive with two entries named \<open>d/a\<close>, the first of mode 0400 and
  mtime 5, the second of mode 0777 and mtime 9. The second is skipped, its name being
  taken, and \<open>/d/a\<close> is the first. The directory-type bit with the union over the leaves
  below \<open>/d\<close> is 0500 with the type (16704), and the mtime of its only leaf is 5; the code
  leaves \<open>/d\<close> with 0555 (16749) and the mtime 9, those of the entry that was skipped:
  the loop of \<open>insert_leaf_node\<close> writes to the parent before it looks the name up.
\<close>

theorem skipped_entry_widens_directory:
  "post_initialize_sync collision_bootstrap = Returns (0, collision_tree) \<and>
   map_option (\<lambda>n. (mode n, mtime n)) (g_nodes_by_name collision_tree ''/d/a'') = Some (33024, 5) \<and>
   map_option (\<lambda>n. (mode n, mtime n)) (g_nodes_by_name collision_tree ''/d'') = Some (16749, 9) \<and>
   union_of_leaves (g_nodes_by_name collision_tree) ''/d'' 16704 \<and>
   \<not> union_of_leaves (g_nodes_by_name collision_tree) ''/d'' 16749 \<and>
   mtime_of_a_leaf (g_nodes_by_name collision_tree) ''/d'' 5 \<and>
   \<not> mtime_of_a_leaf (g_nodes_by_name collision_tree) ''/d'' 9"
proof -
  have nodes: "map_option (\<lambda>n. (mode n, mtime n)) (g_nodes_by_name collision_tree ''/d/a'') =
                 Some (33024, 5)"
    "map_option (\<lambda>n. (mode n, mtime n)) (g_nodes_by_name collision_tree ''/d'') = Some (16749, 9)"
    by (simp_all add: collision_tree_def)
  have m: "mtime_of_a_leaf (g_nodes_by_name collision_tree) ''/d'' t = (t = 5)" for t
    unfolding mtime_of_a_leaf_def
    using collision_tree_leaf [of "\<lambda>md mt. mt = t"] by auto
  show ?thesis
    using collision_bootstrap_run nodes by (simp add: collision_tree_union m)
qed


subsection \<open>A leaf whose name is taken\<close>

text \<open>
  \<open>collision_walk\<close> with its local values named; it looks at nothing but which names exist
  and which of them are directories.
\<close>

lemma collision_walk_unfold:
  assumes "frag = takeWhile (\<lambda>c. c \<noteq> CHR ''/'') q"
      and "r = dropWhile (\<lambda>c. c \<noteq> CHR ''/'') q"
      and "ak = pre @ frag"
  shows "collision_walk store pre q =
    (if r = [] then (if store ak = None then None else Some [])
     else if (case store ak of None \<Rightarrow> False | Some n \<Rightarrow> \<not> is_dir n) then Some []
     else map_option ((#) ak) (collision_walk store (pre @ frag @ ''/'') (tl r)))"
  unfolding assms
  by (subst collision_walk.simps) (simp only: Let_def)

lemma collision_walk_cong:
  "(\<And>k. map_option is_dir (s2 k) = map_option is_dir (s k)) \<Longrightarrow>
     collision_walk s2 pre q = collision_walk s pre q"
proof (induction s pre q rule: collision_walk.induct)
  case (1 store pre q)
  define frag where "frag = takeWhile (\<lambda>c. c \<noteq> CHR ''/'') q"
  define r where "r = dropWhile (\<lambda>c. c \<noteq> CHR ''/'') q"
  define ak where "ak = pre @ frag"
  note u = collision_walk_unfold [OF frag_def r_def ak_def]
  from "1.prems" [of ak] have e: "(s2 ak = None) = (store ak = None)"
    "(case s2 ak of None \<Rightarrow> False | Some n \<Rightarrow> \<not> is_dir n) =
     (case store ak of None \<Rightarrow> False | Some n \<Rightarrow> \<not> is_dir n)"
    by (auto split: option.splits)
  show ?case
  proof (cases "r = [] \<or> (case store ak of None \<Rightarrow> False | Some n \<Rightarrow> \<not> is_dir n)")
    case True
    then show ?thesis unfolding u e by auto
  next
    case False
    then have f: "r \<noteq> []" "\<not> (case store ak of None \<Rightarrow> False | Some n \<Rightarrow> \<not> is_dir n)"
      by auto
    from "1.IH" [OF frag_def r_def ak_def f "1.prems"]
    have "collision_walk s2 (pre @ frag @ ''/'') (tl r) =
          collision_walk store (pre @ frag @ ''/'') (tl r)" .
    with f show ?thesis unfolding u e by simp
  qed
qed

text \<open>In a tree with the invariant, a walk that ends at a collision finds every directory.\<close>

lemma present_parent:
  assumes inv: "store_inv store"
      and ex: "store (pre @ frag) \<noteq> None"
      and pre: "pre \<noteq> []" "last pre = CHR ''/''"
      and frag: "CHR ''/'' \<notin> set frag"
  shows "store (key_of pre) \<noteq> None"
proof (cases "pre @ frag = ''/''")
  case True
  with pre(1) have "pre = ''/''" by (cases pre) auto
  with True ex show ?thesis by (simp add: key_of_def)
next
  case False
  from ex obtain n where n: "store (pre @ frag) = Some n" by auto
  from store_inv_dirkey [OF inv n False] dirkey_append [OF pre frag]
  have "parent n = Some (key_of pre)" by simp
  from store_inv_parent [OF inv n this] show ?thesis by auto
qed

lemma collision_walk_present:
  "collision_walk store pre q = Some ks \<Longrightarrow> pre \<noteq> [] \<Longrightarrow> last pre = CHR ''/'' \<Longrightarrow>
     store_inv store \<Longrightarrow>
     store (key_of pre) \<noteq> None \<and> (\<forall>k \<in> set ks. store k \<noteq> None)"
proof (induction store pre q arbitrary: ks rule: collision_walk.induct)
  case (1 store pre q)
  note inv = "1.prems"(4)
  define frag where "frag = takeWhile (\<lambda>c. c \<noteq> CHR ''/'') q"
  define r where "r = dropWhile (\<lambda>c. c \<noteq> CHR ''/'') q"
  define ak where "ak = pre @ frag"
  note u = collision_walk_unfold [OF frag_def r_def ak_def]
  have ns: "CHR ''/'' \<notin> set frag" unfolding frag_def by (rule fragment_no_slash)
  have pre': "pre @ frag @ ''/'' \<noteq> []" "last (pre @ frag @ ''/'') = CHR ''/''"
    by simp_all
  have k: "key_of (pre @ frag @ ''/'') = ak"
    using "1.prems"(2) by (simp add: key_of_step ak_def)
  have up: "store (key_of pre) \<noteq> None" if "store ak \<noteq> None"
    using present_parent [OF inv that [unfolded ak_def] "1.prems"(2,3) ns] .
  show ?case
  proof (cases "r = [] \<or> (case store ak of None \<Rightarrow> False | Some n \<Rightarrow> \<not> is_dir n)")
    case True
    with "1.prems"(1) have "ks = []" "store ak \<noteq> None"
      unfolding u by (auto split: if_splits option.splits)
    with up show ?thesis by simp
  next
    case False
    then have f: "r \<noteq> []" "\<not> (case store ak of None \<Rightarrow> False | Some n \<Rightarrow> \<not> is_dir n)"
      by auto
    with "1.prems"(1) obtain ks' where ks: "ks = ak # ks'"
      and rec: "collision_walk store (pre @ frag @ ''/'') (tl r) = Some ks'"
      unfolding u by auto
    from "1.IH" [OF frag_def r_def ak_def f rec pre' inv] k
    have "store ak \<noteq> None" "\<forall>k \<in> set ks'. store k \<noteq> None" by simp_all
    with up ks show ?thesis by simp
  qed
qed


text \<open>The walk up to the collision: the directories passed are widened, nothing else moves.\<close>

lemma widened_code:
  "(if mtime pn < mt then pn\<lparr>mtime := mt\<rparr> else pn)
     \<lparr>mode := mode (if mtime pn < mt then pn\<lparr>mtime := mt\<rparr> else pn) OR bm\<rparr> = widened mt bm pn"
  by (cases "mtime pn < mt") (simp_all add: widened_def max_def)

lemma widened_twice: "widened mt bm (widened mt bm n) = widened mt bm n"
  by (simp add: widened_def)

lemma widened_is_dir: "is_dir n \<Longrightarrow> is_dir (widened mt (branch_mode_of md) n)"
  by (simp add: widened_def is_dir_def S_ISDIR_widen)

lemma insert_leaf_node_loop_collision:
  "collision_walk (g_nodes_by_name st) pre q = Some ks \<Longrightarrow>
   \<forall>k \<in> set ks. g_nodes_by_name st k \<noteq> None \<Longrightarrow>
   g_nodes_by_name st parent0 = Some pn \<Longrightarrow> is_dir pn \<Longrightarrow> bm = branch_mode_of md \<Longrightarrow>
   \<exists>store'. insert_leaf_node_loop sy ix sz mt bm lm pre q parent0 st =
               Returns (0, st\<lparr>g_nodes_by_name := store'\<rparr>) \<and>
            (\<forall>k. if k \<in> set (parent0 # ks)
                 then \<exists>n. g_nodes_by_name st k = Some n \<and> is_dir n \<and>
                          store' k = Some (widened mt bm n)
                 else store' k = g_nodes_by_name st k)"
proof (induction sy ix sz mt bm lm pre q parent0 st arbitrary: ks pn
         rule: insert_leaf_node_loop.induct)
  case (1 sy ix sz mt bm lm pre q parent0 st)
  note cw = "1.prems"(1) and ex = "1.prems"(2) and pn = "1.prems"(3,4) and bm = "1.prems"(5)
  define pn1 where "pn1 = (if mtime pn < mt then pn\<lparr>mtime := mt\<rparr> else pn)"
  define pn2 where "pn2 = pn1\<lparr>mode := mode pn1 OR bm\<rparr>"
  define st1 where "st1 = st\<lparr>g_nodes_by_name := (g_nodes_by_name st)(parent0 \<mapsto> pn2)\<rparr>"
  define frag where "frag = takeWhile (\<lambda>c. c \<noteq> CHR ''/'') q"
  define r where "r = dropWhile (\<lambda>c. c \<noteq> CHR ''/'') q"
  define ak where "ak = pre @ frag"
  note unfold = loop_unfold [OF pn(1) pn1_def pn2_def st1_def frag_def r_def ak_def, of sy ix sz lm]
  note u = collision_walk_unfold [OF frag_def r_def ak_def, of "g_nodes_by_name st"]
  have w: "pn2 = widened mt bm pn"
    unfolding pn2_def pn1_def by (rule widened_code)
  have d2: "is_dir pn2"
    unfolding w bm using pn(2) by (rule widened_is_dir)
  have s1: "g_nodes_by_name st1 = (g_nodes_by_name st)(parent0 \<mapsto> pn2)"
    "st1 = st\<lparr>g_nodes_by_name := g_nodes_by_name st1\<rparr>"
    by (simp_all add: st1_def)
  have shape: "map_option is_dir (g_nodes_by_name st1 k) = map_option is_dir (g_nodes_by_name st k)"
    for k
    using pn d2 by (simp add: s1(1))
  have stop: "\<forall>k. if k \<in> set [parent0]
                 then \<exists>n. g_nodes_by_name st k = Some n \<and> is_dir n \<and>
                          g_nodes_by_name st1 k = Some (widened mt bm n)
                 else g_nodes_by_name st1 k = g_nodes_by_name st k"
    using pn w by (simp add: s1(1))
  show ?case
  proof (cases "r = [] \<or> (case g_nodes_by_name st ak of None \<Rightarrow> False | Some n \<Rightarrow> \<not> is_dir n)")
    case True
    with cw have ks: "ks = []" and here: "g_nodes_by_name st ak \<noteq> None"
      unfolding u by (auto split: if_splits option.splits)
    from here shape [of ak] obtain n1 where n1: "g_nodes_by_name st1 ak = Some n1"
      by (cases "g_nodes_by_name st1 ak") auto
    from True shape [of ak] n1 have "r = [] \<or> \<not> is_dir n1"
      by (auto split: option.splits)
    with n1 have "insert_leaf_node_loop sy ix sz mt bm lm pre q parent0 st = Returns (0, st1)"
      unfolding unfold by auto
    with s1(2) stop ks show ?thesis by metis
  next
    case False
    then have f: "r \<noteq> []"
      "\<not> (case g_nodes_by_name st ak of None \<Rightarrow> False | Some n \<Rightarrow> \<not> is_dir n)"
      by auto
    with cw obtain ks' where ks: "ks = ak # ks'"
      and rec: "collision_walk (g_nodes_by_name st) (pre @ frag @ ''/'') (tl r) = Some ks'"
      unfolding u by auto
    from ex ks obtain n0 where n0: "g_nodes_by_name st ak = Some n0" by auto
    with f(2) have d0: "is_dir n0" by simp
    from n0 d0 shape [of ak] obtain n1 where n1: "g_nodes_by_name st1 ak = Some n1" "is_dir n1"
      by (cases "g_nodes_by_name st1 ak") auto
    have rec1: "collision_walk (g_nodes_by_name st1) (pre @ frag @ ''/'') (tl r) = Some ks'"
      using collision_walk_cong [of "g_nodes_by_name st1" "g_nodes_by_name st", OF shape] rec
      by simp
    have ex1: "\<forall>k \<in> set ks'. g_nodes_by_name st1 k \<noteq> None"
      using ex ks by (simp add: s1(1))
    from n1(2) have nn: "\<not> \<not> is_dir n1" by simp
    from "1.IH"(2) [OF pn(1) pn1_def pn2_def st1_def frag_def r_def ak_def refl f(1) n1(1) nn
        rec1 ex1 n1 bm]
    obtain store' where
      run: "insert_leaf_node_loop sy ix sz mt bm lm (pre @ frag @ ''/'') (tl r) ak st1 =
              Returns (0, st1\<lparr>g_nodes_by_name := store'\<rparr>)"
      and eff: "\<forall>k. if k \<in> set (ak # ks')
                 then \<exists>n. g_nodes_by_name st1 k = Some n \<and> is_dir n \<and>
                          store' k = Some (widened mt bm n)
                 else store' k = g_nodes_by_name st1 k"
      by blast
    have whole: "insert_leaf_node_loop sy ix sz mt bm lm pre q parent0 st =
                   Returns (0, st\<lparr>g_nodes_by_name := store'\<rparr>)"
      unfolding unfold using f(1) n1 run by (simp add: st1_def)
    have "if k \<in> set (parent0 # ks)
          then \<exists>n. g_nodes_by_name st k = Some n \<and> is_dir n \<and> store' k = Some (widened mt bm n)
          else store' k = g_nodes_by_name st k" for k
    proof (cases "k = parent0")
      case True
      show ?thesis
      proof (cases "parent0 \<in> set (ak # ks')")
        case True
        with eff have "\<exists>n. g_nodes_by_name st1 parent0 = Some n \<and>
                          store' parent0 = Some (widened mt bm n)"
          by metis
        then have "store' parent0 = Some (widened mt bm pn)"
          by (auto simp: s1(1) w widened_twice)
        with pn \<open>k = parent0\<close> show ?thesis by simp
      next
        case False
        with eff have "store' parent0 = g_nodes_by_name st1 parent0" by metis
        with pn \<open>k = parent0\<close> w show ?thesis by (simp add: s1(1))
      qed
    next
      case False
      then have same: "g_nodes_by_name st1 k = g_nodes_by_name st k" by (simp add: s1(1))
      from eff have "if k \<in> set (ak # ks')
                 then \<exists>n. g_nodes_by_name st1 k = Some n \<and> is_dir n \<and>
                          store' k = Some (widened mt bm n)
                 else store' k = g_nodes_by_name st1 k" ..
      with False same ks show ?thesis by (auto split: if_splits)
    qed
    with whole show ?thesis by blast
  qed
qed


text \<open>
  C10. Take a tree as the bootstrap builds it, an index that is not negative, and a leaf
  of pathname \<open>/q\<close> whose walk ends at a name that is taken: the last component exists
  already, or a component before the last exists and is not a directory. Then
  \<open>insert_leaf_node\<close> returns 0 and changes nothing but nodes of the tree, so the leaf gets no
  entry in \<open>g_nodes_by_index\<close> and the block count stays; no name is added to the tree and
  none removed, so there is no node for the leaf; the root and every directory passed
  before the collision existed already and has afterwards its mode joined with the
  branch bits of the leaf and its mtime raised to the leaf's if that is later, its other
  fields as before; every other node is as before. A name that exists in such a tree has
  all the directories above it, which is why no directory is missing, and none created,
  on a walk that ends at a collision.
\<close>

theorem insert_leaf_node_collision:
  assumes inv: "tree_inv st"
      and ix: "0 \<le> ix"
      and cw: "collision_walk (g_nodes_by_name st) ''/'' q = Some ks"
  shows "\<exists>store'. insert_leaf_node (CHR ''/'' # q) sy ix sz mt md st =
                    Returns (0, st\<lparr>g_nodes_by_name := store'\<rparr>) \<and>
           (\<forall>k. (store' k = None) = (g_nodes_by_name st k = None)) \<and>
           (\<forall>k \<in> set (''/'' # ks).
              \<exists>n. g_nodes_by_name st k = Some n \<and> is_dir n \<and>
                  store' k =
                    Some (n\<lparr>mtime := max (mtime n) mt, mode := mode n OR branch_mode_of md\<rparr>)) \<and>
           (\<forall>k. k \<notin> set (''/'' # ks) \<longrightarrow> store' k = g_nodes_by_name st k)"
proof -
  from inv have root: "g_root_node st = Some ''/''" and sinv: "store_inv (g_nodes_by_name st)"
    by (simp_all add: tree_inv_def)
  from store_inv_root [OF sinv] obtain r where
    r: "g_nodes_by_name st ''/'' = Some r" "is_dir r"
    by blast
  from collision_walk_present [OF cw _ _ sinv]
  have ex: "\<forall>k \<in> set ks. g_nodes_by_name st k \<noteq> None" by simp
  from insert_leaf_node_loop_collision [OF cw ex r refl, of sy ix sz mt md "leaf_mode_of md sy"]
  obtain store' where
    run: "insert_leaf_node_loop sy ix sz mt (branch_mode_of md) (leaf_mode_of md sy)
            ''/'' q ''/'' st = Returns (0, st\<lparr>g_nodes_by_name := store'\<rparr>)"
    and eff: "\<And>k. if k \<in> set (''/'' # ks)
                 then \<exists>n. g_nodes_by_name st k = Some n \<and> is_dir n \<and>
                          store' k = Some (widened mt (branch_mode_of md) n)
                 else store' k = g_nodes_by_name st k"
    by blast
  from ix root run
  have whole: "insert_leaf_node (CHR ''/'' # q) sy ix sz mt md st =
                 Returns (0, st\<lparr>g_nodes_by_name := store'\<rparr>)"
    by (simp add: insert_leaf_node_def)
  have same: "(store' k = None) = (g_nodes_by_name st k = None)" for k
    using eff [of k] by (auto split: if_splits)
  have vis: "\<exists>n. g_nodes_by_name st k = Some n \<and> is_dir n \<and>
                  store' k = Some (n\<lparr>mtime := max (mtime n) mt, mode := mode n OR branch_mode_of md\<rparr>)"
    if "k \<in> set (''/'' # ks)" for k
    using eff [of k] that unfolding widened_def by simp
  have rest: "store' k = g_nodes_by_name st k" if "k \<notin> set (''/'' # ks)" for k
    using eff [of k] that by simp
  from whole same vis rest show ?thesis by blast
qed

lemma one_leaf_tree_inv: "tree_inv one_leaf_tree"
proof -
  define s0 where "s0 = insert_root_node example_globals"
  have s0: "g_root_node s0 = Some ''/''" "g_nodes_by_name s0 = root_store" "g_nodes_by_index s0 = []"
    by (simp_all add: s0_def insert_root_node_def example_globals_def root_store_def)
  have "tree_inv s0"
    unfolding s0_def by (rule insert_root_node_inv) (simp add: example_globals_def)
  from insert_leaf_node_inv [OF insert_first [OF s0] this]
  show ?thesis
    by (simp add: tree_inv_def one_leaf_tree_def s0)
qed

text \<open>
  The second entry \<open>d/a\<close> (mode 0777, mtime 9) on the tree that holds the first (mode 0400,
  mtime 5): the walk passes \<open>/d\<close> and stops at \<open>/d/a\<close>; the root and \<open>/d\<close> go from 0500 to
  0555 and from mtime 5 to 9, and \<open>/d/a\<close> stays.
\<close>

theorem insert_leaf_node_collision_witness:
  "tree_inv one_leaf_tree \<and>
   collision_walk (g_nodes_by_name one_leaf_tree) ''/'' ''d/a'' = Some [''/d''] \<and>
   (\<exists>store'. insert_leaf_node ''/d/a'' [] 1 3 9 33279 one_leaf_tree =
               Returns (0, one_leaf_tree\<lparr>g_nodes_by_name := store'\<rparr>) \<and>
          map_option mode (store' ''/'') = Some 16749 \<and>
          map_option mtime (store' ''/'') = Some 9 \<and>
          map_option mode (store' ''/d'') = Some 16749 \<and>
          map_option mtime (store' ''/d'') = Some 9 \<and>
          store' ''/d/a'' = g_nodes_by_name one_leaf_tree ''/d/a'' \<and>
          store' ''/d/a/x'' = None)"
proof -
  have cw: "collision_walk (g_nodes_by_name one_leaf_tree) ''/'' ''d/a'' = Some [''/d'']"
    by (simp add: collision_walk.simps one_leaf_tree_def one_leaf_store_def is_dir_def
          S_ISDIR_def S_IFMT_def S_IFDIR_def)
  have ix: "0 \<le> (1 :: int)" by simp
  from insert_leaf_node_collision [OF one_leaf_tree_inv ix cw, of "[]" 3 9 33279]
  obtain store' where
    run: "insert_leaf_node ''/d/a'' [] 1 3 9 33279 one_leaf_tree =
            Returns (0, one_leaf_tree\<lparr>g_nodes_by_name := store'\<rparr>)"
    and vis: "\<forall>k \<in> set [''/'', ''/d''].
              \<exists>n. g_nodes_by_name one_leaf_tree k = Some n \<and> is_dir n \<and>
                  store' k =
                    Some (n\<lparr>mtime := max (mtime n) 9, mode := mode n OR branch_mode_of 33279\<rparr>)"
    and rest: "\<forall>k. k \<notin> set [''/'', ''/d''] \<longrightarrow> store' k = g_nodes_by_name one_leaf_tree k"
    by blast
  have b: "branch_mode_of 33279 = 16749"
    by (simp add: branch_mode_of_def S_IFDIR_def Let_def)
  from vis have v1: "map_option mode (store' ''/'') = Some 16749"
    "map_option mtime (store' ''/'') = Some 9"
    by (auto simp: b one_leaf_tree_def one_leaf_store_def)
  from vis have v2: "map_option mode (store' ''/d'') = Some 16749"
    "map_option mtime (store' ''/d'') = Some 9"
    by (auto simp: b one_leaf_tree_def one_leaf_store_def)
  from rest have r1: "store' ''/d/a'' = g_nodes_by_name one_leaf_tree ''/d/a''" by simp
  from rest have "store' ''/d/a/x'' = g_nodes_by_name one_leaf_tree ''/d/a/x''" by simp
  then have r2: "store' ''/d/a/x'' = None"
    by (simp add: one_leaf_tree_def one_leaf_store_def)
  from one_leaf_tree_inv cw run v1 v2 r1 r2 show ?thesis by blast
qed

end
